theory Spec2Isabelle
  imports
    Main
    "HOL-Library.List_Lexorder"
    "HOL-Library.Option_ord"
    "HOL-Library.Multiset"
begin

section \<open>Strings and Python built-ins used by the handlers\<close>

text \<open>
  A Python string is the list of its code points. With \<open>List_Lexorder\<close> the order on
  such lists is the lexicographic one, which is how Python compares \<open>str\<close> values.
  \<open>str_of\<close> reads a string of ASCII characters as a Python string.

  \<open>str.lower\<close> follows the case tables of the interpreter's Unicode database, which are
  not part of the repository. Every handler that lower-cases a string takes the function
  as its first argument, \<open>lower\<close>, and what is proved holds for every such function.
\<close>

type_synonym str = "int list"

definition str_of :: "string \<Rightarrow> str" where
  "str_of s = map of_char s"

text \<open>\<open>sub in s\<close> on strings: \<open>sub\<close> occurs in \<open>s\<close> as a contiguous block.\<close>

fun str_in :: "str \<Rightarrow> str \<Rightarrow> bool" where
  "str_in sub [] = (sub = [])"
| "str_in sub (c # cs) = (take (length sub) (c # cs) = sub \<or> str_in sub cs)"

text \<open>\<open>str(n)\<close> for an integer: an optional minus sign and the decimal digits.\<close>

definition digit_char :: "nat \<Rightarrow> int" where
  "digit_char d = 48 + int d"

function digits_of :: "nat \<Rightarrow> str" where
  "digits_of n = (if n < 10 then [digit_char n] else digits_of (n div 10) @ [digit_char (n mod 10)])"
  by pat_completeness auto
termination
  by (relation "measure (\<lambda>n. n)") auto

declare digits_of.simps [simp del]

definition str_int :: "int \<Rightarrow> str" where
  "str_int i = (if i < 0 then str_of ''-'' @ digits_of (nat (- i)) else digits_of (nat i))"

text \<open>
  A slice \<open>xs[i:j]\<close>: a negative index counts from the end, and both indices are
  clamped to the list.
\<close>

definition slice_index :: "int \<Rightarrow> nat \<Rightarrow> nat" where
  "slice_index i n = (if i < 0 then nat (max 0 (i + int n)) else min (nat i) n)"

definition py_slice :: "'a list \<Rightarrow> int \<Rightarrow> int \<Rightarrow> 'a list" where
  "py_slice xs i j =
     (let a = slice_index i (length xs); b = slice_index j (length xs)
      in take (b - a) (drop a xs))"

text \<open>
  \<open>list.sort(key=f, reverse=r)\<close> is a stable sort; with \<open>reverse\<close> the list is reversed,
  sorted and reversed again, so equal keys keep their original order in both
  directions. The result of a stable sort is unique, so the insertion sort
  \<^const>\<open>sort_key\<close> computes the list that Python's sort computes.
\<close>

definition py_sort :: "('a \<Rightarrow> 'k::linorder) \<Rightarrow> bool \<Rightarrow> 'a list \<Rightarrow> 'a list" where
  "py_sort f reverse xs = (if reverse then rev (sort_key f (rev xs)) else sort_key f xs)"


section \<open>User service: schemas and the in-memory store (day2/app.py)\<close>

record Address =
  city :: str
  country :: str

text \<open>The validated request body of POST and PUT.\<close>

record UserCreate =
  c_name :: str
  c_email :: str
  c_age :: int
  c_bio :: "str option"
  c_addresses :: "Address list"

text \<open>
  The request body of PATCH. A field is \<open>Unset\<close> when the request does not mention it,
  and \<open>Given v\<close> when it does; \<open>Given None\<close> is an explicit \<open>null\<close>.
  \<open>changes.dict(exclude_unset=True)\<close> has exactly the \<open>Given\<close> fields as its keys.
\<close>

datatype 'a supplied = Unset | Given "'a option"

record UserUpdate =
  p_name :: "str supplied"
  p_email :: "str supplied"
  p_age :: "int supplied"
  p_bio :: "str supplied"
  p_addresses :: "Address list supplied"

text \<open>
  A stored user is a dictionary; the values that PATCH can overwrite may be \<open>None\<close>.
  \<open>created_at\<close> is a point in time, here a number.
\<close>

type_synonym datetime = nat

record user =
  id_u :: int
  name :: "str option"
  email :: "str option"
  age :: "int option"
  bio :: "str option"
  addresses :: "Address list option"
  created_at :: datetime

record store =
  USERS :: "user list"
  USER_ID :: int

definition init_store :: store where
  "init_store = \<lparr>USERS = [], USER_ID = 1\<rparr>"

text \<open>
  What a handler can raise. \<open>HTTPException\<close> carries the status code and the detail;
  \<open>AttributeError\<close> and \<open>TypeError\<close> are what Python raises when \<open>.lower()\<close> is called on
  \<open>None\<close>, or \<open>None\<close> is compared.
\<close>

datatype error =
    HTTPException int str
  | DuplicateEmailError str
  | AttributeError
  | TypeError

fun find_from :: "user list \<Rightarrow> int \<Rightarrow> int \<Rightarrow> int" where
  "find_from [] user_id i = - 1"
| "find_from (u # us) user_id i = (if id_u u = user_id then i else find_from us user_id (i + 1))"

definition find_user_index :: "user list \<Rightarrow> int \<Rightarrow> int" where
  "find_user_index users user_id = find_from users user_id 0"

definition not_found :: "int \<Rightarrow> error" where
  "not_found user_id =
     HTTPException 404 (str_of ''User '' @ str_int user_id @ str_of '' not found'')"

subsection \<open>The duplicate-email checks\<close>

text \<open>
  \<open>any(u["email"].lower() == e.lower() for u in USERS)\<close>: the users are visited in
  order, and the first match ends the search.
\<close>

fun any_email :: "(str \<Rightarrow> str) \<Rightarrow> user list \<Rightarrow> str \<Rightarrow> error + bool" where
  "any_email lower [] e = Inr False"
| "any_email lower (u # us) e =
     (case email u of
        None \<Rightarrow> Inl AttributeError
      | Some ue \<Rightarrow> if lower ue = lower e then Inr True else any_email lower us e)"

text \<open>
  \<open>any(u["email"].lower() == e.lower() and u["id"] != user_id for u in USERS)\<close>, where
  \<open>e\<close> may be \<open>None\<close> in PATCH. Both \<open>.lower()\<close> calls are made before the comparison.
\<close>

fun any_other_email :: "(str \<Rightarrow> str) \<Rightarrow> user list \<Rightarrow> str option \<Rightarrow> int \<Rightarrow> error + bool" where
  "any_other_email lower [] e user_id = Inr False"
| "any_other_email lower (u # us) e user_id =
     (case email u of
        None \<Rightarrow> Inl AttributeError
      | Some ue \<Rightarrow>
          (case e of
             None \<Rightarrow> Inl AttributeError
           | Some e' \<Rightarrow>
               if lower ue = lower e' \<and> id_u u \<noteq> user_id then Inr True
               else any_other_email lower us e user_id))"

subsection \<open>Create\<close>

definition create_user :: "(str \<Rightarrow> str) \<Rightarrow> UserCreate \<Rightarrow> datetime \<Rightarrow> store \<Rightarrow> (error + user) \<times> store" where
  "create_user lower user now s =
     (case any_email lower (USERS s) (c_email user) of
        Inl e \<Rightarrow> (Inl e, s)
      | Inr True \<Rightarrow> (Inl (DuplicateEmailError (c_email user)), s)
      | Inr False \<Rightarrow>
          (let new_user =
                 \<lparr>id_u = USER_ID s,
                  name = Some (c_name user),
                  email = Some (c_email user),
                  age = Some (c_age user),
                  bio = c_bio user,
                  addresses = Some (c_addresses user),
                  created_at = now\<rparr>
           in (Inr new_user, s\<lparr>USERS := USERS s @ [new_user], USER_ID := USER_ID s + 1\<rparr>)))"

subsection \<open>List\<close>

datatype sort_by = ById | ByName | ByAge
datatype order = Asc | Desc

record PaginatedUsers =
  total :: int
  page :: int
  limit :: int
  items :: "user list"

text \<open>A list comprehension whose condition can raise: the first error ends it.\<close>

fun filter_e :: "('a \<Rightarrow> error + bool) \<Rightarrow> 'a list \<Rightarrow> error + 'a list" where
  "filter_e P [] = Inr []"
| "filter_e P (x # xs) =
     (case P x of
        Inl e \<Rightarrow> Inl e
      | Inr b \<Rightarrow>
          (case filter_e P xs of
             Inl e \<Rightarrow> Inl e
           | Inr ys \<Rightarrow> Inr (if b then x # ys else ys)))"

text \<open>\<open>q_lower in u["name"].lower() or q_lower in u["email"].lower()\<close>\<close>

definition matches_q :: "(str \<Rightarrow> str) \<Rightarrow> str \<Rightarrow> user \<Rightarrow> error + bool" where
  "matches_q lower q_lower u =
     (case name u of
        None \<Rightarrow> Inl AttributeError
      | Some n \<Rightarrow>
          if str_in q_lower (lower n) then Inr True
          else (case email u of
                  None \<Rightarrow> Inl AttributeError
                | Some e \<Rightarrow> Inr (str_in q_lower (lower e))))"

definition age_ge :: "int \<Rightarrow> user \<Rightarrow> error + bool" where
  "age_ge min_age u = (case age u of None \<Rightarrow> Inl TypeError | Some a \<Rightarrow> Inr (a \<ge> min_age))"

definition age_le :: "int \<Rightarrow> user \<Rightarrow> error + bool" where
  "age_le max_age u = (case age u of None \<Rightarrow> Inl TypeError | Some a \<Rightarrow> Inr (a \<le> max_age))"

text \<open>
  \<open>items.sort(key=lambda u: u[sort_by], reverse=reverse)\<close>. Comparing \<open>None\<close> raises
  \<open>TypeError\<close>; a list of fewer than two items is sorted without any comparison, and
  in a longer list every item is compared at least once.
\<close>

definition sort_items :: "sort_by \<Rightarrow> bool \<Rightarrow> user list \<Rightarrow> error + user list" where
  "sort_items sb reverse xs =
     (case sb of
        ById \<Rightarrow> Inr (py_sort id_u reverse xs)
      | ByName \<Rightarrow>
          if 2 \<le> length xs \<and> (\<exists>u \<in> set xs. name u = None) then Inl TypeError
          else Inr (py_sort name reverse xs)
      | ByAge \<Rightarrow>
          if 2 \<le> length xs \<and> (\<exists>u \<in> set xs. age u = None) then Inl TypeError
          else Inr (py_sort age reverse xs))"

definition list_users ::
  "(str \<Rightarrow> str) \<Rightarrow> int \<Rightarrow> int \<Rightarrow> str option \<Rightarrow> int option \<Rightarrow> int option \<Rightarrow> sort_by \<Rightarrow> order \<Rightarrow> store
     \<Rightarrow> (error + PaginatedUsers) \<times> store" where
  "list_users lower pg lim q min_age max_age sb ord s =
     (let items0 = USERS s;
          r1 = (case q of
                  None \<Rightarrow> Inr items0
                | Some qs \<Rightarrow>
                    if qs = [] then Inr items0 else filter_e (matches_q lower (lower qs)) items0);
          r2 = (case r1 of
                  Inl e \<Rightarrow> Inl e
                | Inr items1 \<Rightarrow>
                    (case min_age of None \<Rightarrow> Inr items1 | Some m \<Rightarrow> filter_e (age_ge m) items1));
          r3 = (case r2 of
                  Inl e \<Rightarrow> Inl e
                | Inr items2 \<Rightarrow>
                    (case max_age of None \<Rightarrow> Inr items2 | Some m \<Rightarrow> filter_e (age_le m) items2));
          r4 = (case r3 of
                  Inl e \<Rightarrow> Inl e
                | Inr items3 \<Rightarrow> sort_items sb (ord = Desc) items3)
      in case r4 of
           Inl e \<Rightarrow> (Inl e, s)
         | Inr sorted_items \<Rightarrow>
             (let start = (pg - 1) * lim;
                  end = start + lim
              in (Inr \<lparr>total = int (length sorted_items), page = pg, limit = lim,
                       items = py_slice sorted_items start end\<rparr>, s)))"

subsection \<open>Get\<close>

definition get_user :: "int \<Rightarrow> bool \<Rightarrow> store \<Rightarrow> (error + user) \<times> store" where
  "get_user user_id include_addresses s =
     (let idx = find_user_index (USERS s) user_id
      in if idx = - 1 then (Inl (not_found user_id), s)
         else (let u = USERS s ! nat idx
               in (Inr (if \<not> include_addresses then u\<lparr>addresses := Some []\<rparr> else u), s)))"

subsection \<open>Replace and patch\<close>

text \<open>\<open>USERS[idx].update({**payload.dict()})\<close>\<close>

definition update_all :: "UserCreate \<Rightarrow> user \<Rightarrow> user" where
  "update_all payload u =
     u\<lparr>name := Some (c_name payload),
       email := Some (c_email payload),
       age := Some (c_age payload),
       bio := c_bio payload,
       addresses := Some (c_addresses payload)\<rparr>"

definition replace_user :: "(str \<Rightarrow> str) \<Rightarrow> int \<Rightarrow> UserCreate \<Rightarrow> store \<Rightarrow> (error + user) \<times> store" where
  "replace_user lower user_id payload s =
     (let idx = find_user_index (USERS s) user_id
      in if idx = - 1 then (Inl (not_found user_id), s)
         else (case any_other_email lower (USERS s) (Some (c_email payload)) user_id of
                 Inl e \<Rightarrow> (Inl e, s)
               | Inr True \<Rightarrow> (Inl (DuplicateEmailError (c_email payload)), s)
               | Inr False \<Rightarrow>
                   (let u' = update_all payload (USERS s ! nat idx)
                    in (Inr u', s\<lparr>USERS := (USERS s)[nat idx := u']\<rparr>))))"

text \<open>\<open>USERS[idx].update(update_data)\<close>: the keys of \<open>update_data\<close> are overwritten.\<close>

definition set_field :: "'a supplied \<Rightarrow> 'a option \<Rightarrow> 'a option" where
  "set_field f old = (case f of Unset \<Rightarrow> old | Given v \<Rightarrow> v)"

definition update_given :: "UserUpdate \<Rightarrow> user \<Rightarrow> user" where
  "update_given changes u =
     u\<lparr>name := set_field (p_name changes) (name u),
       email := set_field (p_email changes) (email u),
       age := set_field (p_age changes) (age u),
       bio := set_field (p_bio changes) (bio u),
       addresses := set_field (p_addresses changes) (addresses u)\<rparr>"

text \<open>
  The exception raised for a duplicate carries the supplied email, which is a string
  whenever the check has answered.
\<close>

definition patch_user :: "(str \<Rightarrow> str) \<Rightarrow> int \<Rightarrow> UserUpdate \<Rightarrow> store \<Rightarrow> (error + user) \<times> store" where
  "patch_user lower user_id changes s =
     (let idx = find_user_index (USERS s) user_id
      in if idx = - 1 then (Inl (not_found user_id), s)
         else (let chk = (case p_email changes of
                            Unset \<Rightarrow> Inr False
                          | Given e \<Rightarrow> any_other_email lower (USERS s) e user_id)
               in case chk of
                    Inl e \<Rightarrow> (Inl e, s)
                  | Inr True \<Rightarrow>
                      (Inl (DuplicateEmailError
                              (case p_email changes of Given (Some e) \<Rightarrow> e | _ \<Rightarrow> [])), s)
                  | Inr False \<Rightarrow>
                      (let u' = update_given changes (USERS s ! nat idx)
                       in (Inr u', s\<lparr>USERS := (USERS s)[nat idx := u']\<rparr>))))"

subsection \<open>Delete\<close>

definition pop :: "nat \<Rightarrow> 'a list \<Rightarrow> 'a list" where
  "pop i xs = take i xs @ drop (Suc i) xs"

definition delete_user :: "int \<Rightarrow> store \<Rightarrow> (error + str) \<times> store" where
  "delete_user user_id s =
     (let idx = find_user_index (USERS s) user_id
      in if idx = - 1 then (Inl (not_found user_id), s)
         else (Inr (str_of ''User '' @ str_int user_id @ str_of '' deleted''),
               s\<lparr>USERS := pop (nat idx) (USERS s)\<rparr>))"

subsection \<open>Upload\<close>

type_synonym bytes = "char list"

record UploadFile =
  filename :: str
  content_type :: "str option"
  stream :: bytes

record UploadResponse =
  r_filename :: str
  r_content_type :: "str option"
  size_bytes :: "nat option"
  message :: str

text \<open>
  The loop of \<open>upload_file\<close>. \<open>file.read(n)\<close> hands out the next \<open>n\<close> bytes of the
  stream, or what is left of it; the loop ends at the first empty chunk. The arguments
  are the chunk size, the rest of the stream, the count \<open>size\<close> and the bytes written
  so far.
\<close>

function upload_loop :: "nat \<Rightarrow> bytes \<Rightarrow> nat \<Rightarrow> bytes \<Rightarrow> nat \<times> bytes" where
  "upload_loop n rest sz f =
     (if take n rest = [] then (sz, f)
      else upload_loop n (drop n rest) (sz + length (take n rest)) (f @ take n rest))"
  by pat_completeness auto
termination
  by (relation "measure (\<lambda>(n, rest, sz, f). length rest)") auto

declare upload_loop.simps [simp del]

definition CHUNK :: nat where
  "CHUNK = 1024 * 1024"

text \<open>\<open>os.path.join\<close> of two components on a POSIX system.\<close>

definition path_join :: "str \<Rightarrow> str \<Rightarrow> str" where
  "path_join a b =
     (if b \<noteq> [] \<and> [hd b] = str_of ''/'' then b
      else if a = [] \<or> [last a] = str_of ''/'' then a @ b
      else a @ str_of ''/'' @ b)"

text \<open>
  The file system is a map from paths to contents; opening with mode \<open>wb\<close> starts from
  an empty file. Errors of the operating system are outside the model.
\<close>

definition upload_file ::
  "UploadFile \<Rightarrow> str option \<Rightarrow> int option \<Rightarrow> str \<Rightarrow> (str \<rightharpoonup> bytes)
     \<Rightarrow> UploadResponse \<times> (str \<rightharpoonup> bytes)" where
  "upload_file file description user_id UPLOAD_DIR fs =
     (let dest_path = path_join UPLOAD_DIR (filename file);
          (sz, written) = upload_loop CHUNK (stream file) 0 [];
          msg = (case user_id of
                   None \<Rightarrow> str_of ''Uploaded''
                 | Some i \<Rightarrow>
                     if i \<noteq> 0 then str_of ''Uploaded for user '' @ str_int i
                     else str_of ''Uploaded'');
          msg' = (case description of
                    None \<Rightarrow> msg
                  | Some d \<Rightarrow> if d \<noteq> [] then msg @ str_of '' ('' @ d @ str_of '')'' else msg)
      in (\<lparr>r_filename = filename file, r_content_type = content_type file,
           size_bytes = Some sz, message = msg'\<rparr>,
          fs(dest_path \<mapsto> written)))"

subsection \<open>Requests to the user store\<close>

datatype request =
    Create UserCreate datetime
  | ListUsers int int "str option" "int option" "int option" sort_by order
  | Get int bool
  | Replace int UserCreate
  | Patch int UserUpdate
  | Delete int

text \<open>The store after a request has been handled.\<close>

fun handle :: "(str \<Rightarrow> str) \<Rightarrow> request \<Rightarrow> store \<Rightarrow> store" where
  "handle lower (Create user now) s = snd (create_user lower user now s)"
| "handle lower (ListUsers pg lim q min_age max_age sb ord) s =
     snd (list_users lower pg lim q min_age max_age sb ord s)"
| "handle lower (Get user_id inc) s = snd (get_user user_id inc s)"
| "handle lower (Replace user_id payload) s = snd (replace_user lower user_id payload s)"
| "handle lower (Patch user_id changes) s = snd (patch_user lower user_id changes s)"
| "handle lower (Delete user_id) s = snd (delete_user user_id s)"

inductive reachable :: "(str \<Rightarrow> str) \<Rightarrow> store \<Rightarrow> bool" where
  reachable_init: "reachable lower init_store"
| reachable_step: "reachable lower s \<Longrightarrow> reachable lower (handle lower r s)"

fun run :: "(str \<Rightarrow> str) \<Rightarrow> request list \<Rightarrow> store \<Rightarrow> store" where
  "run lower [] s = s"
| "run lower (r # rs) s = run lower rs (handle lower r s)"

text \<open>The ids handed out: those of the users that successful Create requests return.\<close>

definition issued_by :: "(str \<Rightarrow> str) \<Rightarrow> request \<Rightarrow> store \<Rightarrow> int list" where
  "issued_by lower r s =
     (case r of
        Create user now \<Rightarrow>
          (case fst (create_user lower user now s) of Inr u \<Rightarrow> [id_u u] | Inl e \<Rightarrow> [])
      | _ \<Rightarrow> [])"

fun issued :: "(str \<Rightarrow> str) \<Rightarrow> request list \<Rightarrow> store \<Rightarrow> int list" where
  "issued lower [] s = []"
| "issued lower (r # rs) s = issued_by lower r s @ issued lower rs (handle lower r s)"


section \<open>Student service (student/schemas.py, student/main.py)\<close>

subsection \<open>Field patterns\<close>

text \<open>
  The regular expressions of the schema, as far as the phone pattern needs them: a
  literal character, \<open>\d\<close>, concatenation and bounded repetition \<open>r{m,n}\<close>, which counts
  characters. \<open>\d\<close> matches the decimal digits of the Unicode tables of the regular
  expression engine; the tables are not part of the repository, and the matcher takes
  the class as its first argument, \<open>digit\<close>. \<open>rx_rest digit r s\<close> lists what is left of
  \<open>s\<close> after each way of matching \<open>r\<close> at its start. A pattern between \<open>^\<close> and \<open>$\<close>
  accepts a string when nothing can be left.
\<close>

datatype rx = Chr int | Digit | Seq rx rx | Rep rx nat nat

fun rx_weight :: "rx \<Rightarrow> nat" where
  "rx_weight (Chr c) = 1"
| "rx_weight Digit = 1"
| "rx_weight (Seq a b) = rx_weight a + rx_weight b + 1"
| "rx_weight (Rep a m n) = rx_weight a + n + 1"

function rx_rest :: "(int \<Rightarrow> bool) \<Rightarrow> rx \<Rightarrow> str \<Rightarrow> str list" where
  "rx_rest digit (Chr c) s = (case s of [] \<Rightarrow> [] | x # xs \<Rightarrow> if x = c then [xs] else [])"
| "rx_rest digit Digit s = (case s of [] \<Rightarrow> [] | x # xs \<Rightarrow> if digit x then [xs] else [])"
| "rx_rest digit (Seq a b) s = concat (map (rx_rest digit b) (rx_rest digit a s))"
| "rx_rest digit (Rep a m 0) s = (if m = 0 then [s] else [])"
| "rx_rest digit (Rep a m (Suc n)) s =
     (if m = 0 then [s] else [])
     @ concat (map (rx_rest digit (Rep a (m - 1) n)) (rx_rest digit a s))"
  by pat_completeness auto
termination
  by (relation "measure (\<lambda>(digit, r, s). rx_weight r)") auto

definition full_match :: "(int \<Rightarrow> bool) \<Rightarrow> rx \<Rightarrow> str \<Rightarrow> bool" where
  "full_match digit r s = ([] \<in> set (rx_rest digit r s))"

text \<open>\<open>phone: str = Field(..., pattern=r'^\+91\d{1,12}$')\<close>\<close>

definition phone_pattern :: rx where
  "phone_pattern =
     Seq (Chr (of_char CHR ''+'')) (Seq (Chr (of_char CHR ''9''))
       (Seq (Chr (of_char CHR ''1'')) (Rep Digit 1 12)))"

definition phone_accepted :: "(int \<Rightarrow> bool) \<Rightarrow> str \<Rightarrow> bool" where
  "phone_accepted digit s = full_match digit phone_pattern s"

text \<open>
  The pattern in the words of the specification, \<open>+<country><1-12 digits>\<close>: a plus
  sign, a country calling code (one to three digits, the first not zero) and one to
  twelve digits.
\<close>

definition spec_country_code :: "(int \<Rightarrow> bool) \<Rightarrow> str \<Rightarrow> bool" where
  "spec_country_code digit cc =
     (1 \<le> length cc \<and> length cc \<le> 3 \<and> list_all digit cc \<and> [hd cc] \<noteq> str_of ''0'')"

definition spec_phone_split :: "(int \<Rightarrow> bool) \<Rightarrow> str \<Rightarrow> nat \<Rightarrow> bool" where
  "spec_phone_split digit s k =
     (case s of
        [] \<Rightarrow> False
      | c # r \<Rightarrow>
          [c] = str_of ''+'' \<and> spec_country_code digit (take k r)
          \<and> 1 \<le> length (drop k r) \<and> length (drop k r) \<le> 12 \<and> list_all digit (drop k r))"

definition spec_phone :: "(int \<Rightarrow> bool) \<Rightarrow> str \<Rightarrow> bool" where
  "spec_phone digit s =
     (spec_phone_split digit s 1 \<or> spec_phone_split digit s 2 \<or> spec_phone_split digit s 3)"

subsection \<open>The table and the handlers that address a row\<close>

text \<open>The request body \<open>schemas.student\<close>.\<close>

record student =
  s_name :: str
  s_email :: str
  s_phone :: str
  s_DoB :: str
  s_gender :: str
  s_course :: str
  s_college :: str

text \<open>
  Modelled from the spec: the ORM class \<open>models.Student\<close> and the session of
  \<open>database.py\<close> are not among the sources. A row has an integer id assigned by the
  storage engine and the seven str fields; the table is the list of its rows. A
  query filtered by id is the rows with that id: \<open>first()\<close> is the first of them or
  \<open>None\<close>, \<open>update\<close> overwrites them and \<open>delete\<close> removes them.
\<close>

record Student =
  id_st :: int
  st_name :: str
  st_email :: str
  st_phone :: str
  st_DoB :: str
  st_gender :: str
  st_course :: str
  st_college :: str

type_synonym db = "Student list"

definition query_filter_id :: "db \<Rightarrow> int \<Rightarrow> Student list" where
  "query_filter_id d student_id = filter (\<lambda>r. id_st r = student_id) d"

definition first :: "'a list \<Rightarrow> 'a option" where
  "first xs = (case xs of [] \<Rightarrow> None | x # _ \<Rightarrow> Some x)"

definition not_available :: "int \<Rightarrow> error" where
  "not_available student_id =
     HTTPException 404
       (str_of ''Student with the id '' @ str_int student_id @ str_of '' is not available'')"

definition get_student :: "int \<Rightarrow> db \<Rightarrow> (error + Student) \<times> db" where
  "get_student student_id d =
     (case first (query_filter_id d student_id) of
        None \<Rightarrow> (Inl (not_available student_id), d)
      | Some st \<Rightarrow> (Inr st, d))"

definition update_student :: "int \<Rightarrow> student \<Rightarrow> db \<Rightarrow> (error + str) \<times> db" where
  "update_student student_id request d =
     (case first (query_filter_id d student_id) of
        None \<Rightarrow> (Inl (not_available student_id), d)
      | Some _ \<Rightarrow>
          (Inr (str_of ''Student with the id '' @ str_int student_id
                @ str_of '' is updated successfully''),
           map (\<lambda>r. if id_st r = student_id
                    then r\<lparr>st_name := s_name request, st_email := s_email request,
                           st_phone := s_phone request, st_DoB := s_DoB request,
                           st_course := s_course request, st_college := s_college request,
                           st_gender := s_gender request\<rparr>
                    else r) d))"

definition delete_student :: "int \<Rightarrow> db \<Rightarrow> (error + str) \<times> db" where
  "delete_student student_id d =
     (case first (query_filter_id d student_id) of
        None \<Rightarrow> (Inl (not_available student_id), d)
      | Some _ \<Rightarrow> (Inr (str_of ''Deleted Successfully''), filter (\<lambda>r. id_st r \<noteq> student_id) d))"


section \<open>Predicates on the user store\<close>

text \<open>
  The email of a user as the duplicate checks compare it, what it means that no two
  users share an email up to case, and the facts about the store that every request
  keeps: ids are below the counter and distinct, every email is a string, emails are
  unique up to case.
\<close>

definition lower_email :: "(str \<Rightarrow> str) \<Rightarrow> user \<Rightarrow> str option" where
  "lower_email lower u = map_option lower (email u)"

definition unique_emails :: "(str \<Rightarrow> str) \<Rightarrow> user list \<Rightarrow> bool" where
  "unique_emails lower us = distinct (map (lower_email lower) us)"

definition has_email :: "(str \<Rightarrow> str) \<Rightarrow> user list \<Rightarrow> str \<Rightarrow> bool" where
  "has_email lower us e = (\<exists>u \<in> set us. lower_email lower u = Some (lower e))"

definition other_has_email :: "(str \<Rightarrow> str) \<Rightarrow> user list \<Rightarrow> int \<Rightarrow> str \<Rightarrow> bool" where
  "other_has_email lower us uid e =
     (\<exists>u \<in> set us. id_u u \<noteq> uid \<and> lower_email lower u = Some (lower e))"

definition store_inv :: "(str \<Rightarrow> str) \<Rightarrow> store \<Rightarrow> bool" where
  "store_inv lower s =
     ((\<forall>u \<in> set (USERS s). id_u u < USER_ID s \<and> email u \<noteq> None)
      \<and> distinct (map id_u (USERS s))
      \<and> unique_emails lower (USERS s)
      \<and> 1 \<le> USER_ID s)"


subsection \<open>The listing in the words of the specification\<close>

text \<open>
  A user matches the filters when the lower-cased query occurs in the lower-cased name
  or email (if a query is given) and the age is within the bounds that are given. A
  list is in order when the chosen keys ascend, or descend; it keeps ties when the users
  with the key of any one user come in the order they have in the source list. The
  stored users are well formed when name, email and age are present, as the data model
  requires.
\<close>

definition spec_match :: "(str \<Rightarrow> str) \<Rightarrow> str option \<Rightarrow> int option \<Rightarrow> int option \<Rightarrow> user \<Rightarrow> bool" where
  "spec_match lower q min_age max_age u =
     ((case q of
         None \<Rightarrow> True
       | Some qs \<Rightarrow>
           str_in (lower qs) (lower (the (name u))) \<or> str_in (lower qs) (lower (the (email u))))
      \<and> (case min_age of None \<Rightarrow> True | Some m \<Rightarrow> m \<le> the (age u))
      \<and> (case max_age of None \<Rightarrow> True | Some m \<Rightarrow> the (age u) \<le> m))"

definition key_le :: "sort_by \<Rightarrow> user \<Rightarrow> user \<Rightarrow> bool" where
  "key_le sb a b =
     (case sb of
        ById \<Rightarrow> id_u a \<le> id_u b
      | ByName \<Rightarrow> the (name a) \<le> the (name b)
      | ByAge \<Rightarrow> the (age a) \<le> the (age b))"

definition same_key :: "sort_by \<Rightarrow> user \<Rightarrow> user \<Rightarrow> bool" where
  "same_key sb a b =
     (case sb of
        ById \<Rightarrow> id_u a = id_u b
      | ByName \<Rightarrow> the (name a) = the (name b)
      | ByAge \<Rightarrow> the (age a) = the (age b))"

definition in_order :: "sort_by \<Rightarrow> order \<Rightarrow> user list \<Rightarrow> bool" where
  "in_order sb ord xs =
     sorted_wrt (\<lambda>a b. case ord of Asc \<Rightarrow> key_le sb a b | Desc \<Rightarrow> key_le sb b a) xs"

definition keeps_ties :: "sort_by \<Rightarrow> user list \<Rightarrow> user list \<Rightarrow> bool" where
  "keeps_ties sb src xs = (\<forall>u \<in> set src. filter (same_key sb u) xs = filter (same_key sb u) src)"

definition well_formed :: "user list \<Rightarrow> bool" where
  "well_formed us = (\<forall>u \<in> set us. name u \<noteq> None \<and> email u \<noteq> None \<and> age u \<noteq> None)"


section \<open>Concrete data for the examples\<close>

text \<open>
  For the examples, \<open>str.lower\<close> on strings of Latin-1 characters: the letters A to Z and
  the accented capitals from U+00C0 to U+00DE, the multiplication sign excepted, move
  up by 32. The decimal digits are those of Unicode 14.0: 61 runs of ten code points
  and the mathematical digits from U+1D7CE to U+1D7FF.
\<close>

definition lower_latin1 :: "str \<Rightarrow> str" where
  "lower_latin1 s =
     map (\<lambda>c. if (65 \<le> c \<and> c \<le> 90) \<or> (192 \<le> c \<and> c \<le> 222 \<and> c \<noteq> 215) then c + 32 else c) s"

definition digit_runs :: "int list" where
  "digit_runs =
     [0x30, 0x660, 0x6F0, 0x7C0, 0x966, 0x9E6, 0xA66, 0xAE6, 0xB66, 0xBE6, 0xC66, 0xCE6, 0xD66,
      0xDE6, 0xE50, 0xED0, 0xF20, 0x1040, 0x1090, 0x17E0, 0x1810, 0x1946, 0x19D0, 0x1A80, 0x1A90,
      0x1B50, 0x1BB0, 0x1C40, 0x1C50, 0xA620, 0xA8D0, 0xA900, 0xA9D0, 0xA9F0, 0xAA50, 0xABF0,
      0xFF10, 0x104A0, 0x10D30, 0x11066, 0x110F0, 0x11136, 0x111D0, 0x112F0, 0x11450, 0x114D0,
      0x11650, 0x116C0, 0x11730, 0x118E0, 0x11950, 0x11C50, 0x11D50, 0x11DA0, 0x16A60, 0x16AC0,
      0x16B50, 0x1E140, 0x1E2F0, 0x1E950, 0x1FBF0]"

definition unicode_digit :: "int \<Rightarrow> bool" where
  "unicode_digit c =
     ((\<exists>a \<in> set digit_runs. a \<le> c \<and> c < a + 10) \<or> (0x1D7CE \<le> c \<and> c \<le> 0x1D7FF))"

text \<open>The scenario of the specification: Ann Lee is created first, Bob's email differs by case.\<close>

definition ann :: UserCreate where
  "ann = \<lparr>c_name = str_of ''Ann Lee'', c_email = str_of ''Ann@x.com'', c_age = 30, c_bio = None,
          c_addresses = []\<rparr>"

definition bob :: UserCreate where
  "bob = \<lparr>c_name = str_of ''Bob'', c_email = str_of ''ann@X.com'', c_age = 22, c_bio = None,
          c_addresses = []\<rparr>"

definition carl :: UserCreate where
  "carl = \<lparr>c_name = str_of ''Carl'', c_email = str_of ''carl@y.org'', c_age = 41,
           c_bio = Some (str_of ''hi''),
           c_addresses = [\<lparr>city = str_of ''Pune'', country = str_of ''India''\<rparr>]\<rparr>"

text \<open>Eve, written with a capital E acute (U+00C9), and with a small one (U+00E9).\<close>

definition eve :: UserCreate where
  "eve = \<lparr>c_name = str_of ''Eve'', c_email = 0xC9 # str_of ''ve@x.com'', c_age = 27, c_bio = None,
          c_addresses = []\<rparr>"

definition eve_small :: UserCreate where
  "eve_small = \<lparr>c_name = str_of ''Eve'', c_email = 0xE9 # str_of ''ve@x.com'', c_age = 27,
                c_bio = None, c_addresses = []\<rparr>"

definition store_ann :: store where
  "store_ann = handle lower_latin1 (Create ann 5) init_store"

definition store_ann_carl :: store where
  "store_ann_carl = handle lower_latin1 (Create carl 7) store_ann"

definition no_changes :: UserUpdate where
  "no_changes = \<lparr>p_name = Unset, p_email = Unset, p_age = Unset, p_bio = Unset, p_addresses = Unset\<rparr>"

definition upper_ann :: UserUpdate where
  "upper_ann = no_changes\<lparr>p_email := Given (Some (str_of ''ANN@X.COM''))\<rparr>"

definition scenario :: "request list" where
  "scenario = [Create ann 5, Create bob 6, Create carl 7, Delete 2, Delete 1]"

definition ann_again :: UserCreate where
  "ann_again = \<lparr>c_name = str_of ''Ann Lee'', c_email = str_of ''ANN@x.com'', c_age = 30, c_bio = None,
                c_addresses = []\<rparr>"

definition asha :: Student where
  "asha = \<lparr>id_st = 1, st_name = str_of ''Asha'', st_email = str_of ''asha@c.in'',
           st_phone = str_of ''+919876543210'', st_DoB = str_of ''2001-02-03'',
           st_gender = str_of ''Female'', st_course = str_of ''CSE'', st_college = str_of ''KLE''\<rparr>"

definition asha_update :: student where
  "asha_update = \<lparr>s_name = str_of ''Asha R'', s_email = str_of ''asha@c.in'',
           s_phone = str_of ''+919876543210'', s_DoB = str_of ''2001-02-03'',
           s_gender = str_of ''Female'', s_course = str_of ''ECE'', s_college = str_of ''KLE''\<rparr>"

definition clear_some :: UserUpdate where
  "clear_some = \<lparr>p_name = Given None, p_email = Given (Some (str_of ''ann@new.org'')),
                 p_age = Given None,
                 p_bio = Given None, p_addresses = Unset\<rparr>"

definition null_email :: UserUpdate where
  "null_email = no_changes\<lparr>p_email := Given None\<rparr>"

definition five_mib :: UploadFile where
  "five_mib = \<lparr>filename = str_of ''big.bin'',
               content_type = Some (str_of ''application/octet-stream''),
               stream = replicate (5 * 1024 * 1024) (CHR ''x'')\<rparr>"

definition dan :: UserCreate where
  "dan = \<lparr>c_name = str_of ''Dan'', c_email = str_of ''dan@ANN.net'', c_age = 30, c_bio = None,
          c_addresses = []\<rparr>"

definition joanne :: UserCreate where
  "joanne = \<lparr>c_name = str_of ''Joanne'', c_email = str_of ''jo@y.org'', c_age = 19,
             c_bio = None, c_addresses = []\<rparr>"

definition store_eve :: store where
  "store_eve = handle lower_latin1 (Create eve 12) store_ann_carl"

definition store4 :: store where
  "store4 = run lower_latin1 [Create dan 8, Create joanne 9] store_ann_carl"

definition nameless :: UserUpdate where
  "nameless = no_changes\<lparr>p_name := Given None\<rparr>"

definition nameless_requests :: "request list" where
  "nameless_requests = [Create ann 5, Create carl 7, Patch 1 nameless]"


section \<open>Finding a user by id\<close>

lemma find_from_absent:
  "(find_from us uid i = - 1) = (\<forall>u \<in> set us. id_u u \<noteq> uid)" if "0 \<le> i"
  using that
proof (induction us arbitrary: i)
  case Nil
  then show ?case by simp
next
  case (Cons u us)
  from Cons.prems have "0 \<le> i + 1" by simp
  from Cons.IH [OF this] Cons.prems show ?case by auto
qed

lemma find_from_lower: "find_from us uid i \<noteq> - 1 \<Longrightarrow> i \<le> find_from us uid i"
proof (induction us arbitrary: i)
  case Nil
  then show ?case by simp
next
  case (Cons u us)
  show ?case
  proof (cases "id_u u = uid")
    case True
    then show ?thesis by simp
  next
    case False
    with Cons.prems have "find_from us uid (i + 1) \<noteq> - 1" by simp
    from Cons.IH [OF this] False show ?thesis by simp
  qed
qed

lemma find_from_hit:
  "find_from us uid i \<noteq> - 1 \<Longrightarrow>
     nat (find_from us uid i - i) < length us \<and> id_u (us ! nat (find_from us uid i - i)) = uid
     \<and> (\<forall>k < nat (find_from us uid i - i). id_u (us ! k) \<noteq> uid)"
proof (induction us arbitrary: i)
  case Nil
  then show ?case by simp
next
  case (Cons u us)
  show ?case
  proof (cases "id_u u = uid")
    case True
    then show ?thesis by simp
  next
    case False
    with Cons.prems have ne: "find_from us uid (i + 1) \<noteq> - 1" by simp
    from find_from_lower [OF ne] have le: "i + 1 \<le> find_from us uid (i + 1)" .
    then have eq: "nat (find_from us uid (i + 1) - i) = Suc (nat (find_from us uid (i + 1) - (i + 1)))"
      by simp
    from Cons.IH [OF ne] False eq show ?thesis
      by (auto simp: nth_Cons split: nat.splits)
  qed
qed

lemma find_user_index_absent:
  "(find_user_index us uid = - 1) = (\<forall>u \<in> set us. id_u u \<noteq> uid)"
  by (simp add: find_user_index_def find_from_absent)

lemma find_user_index_hit:
  assumes "find_user_index us uid \<noteq> - 1"
  shows "0 \<le> find_user_index us uid"
    and "nat (find_user_index us uid) < length us"
    and "id_u (us ! nat (find_user_index us uid)) = uid"
    and "\<forall>k < nat (find_user_index us uid). id_u (us ! k) \<noteq> uid"
  using assms find_from_hit [of us uid 0] find_from_lower [of us uid 0]
  by (simp_all add: find_user_index_def)


section \<open>Patch with an empty change set\<close>

lemma update_given_unset: "update_given no_changes u = u"
  by (simp add: update_given_def set_field_def no_changes_def)

text \<open>
  Claim C8. For a user that exists in the store, PATCH with no field supplied returns
  the stored user as it is (the user that GET returns for this id) and leaves the store,
  hence every field of every stored user, unchanged.
\<close>

theorem patch_empty_unchanged:
  assumes "\<exists>u \<in> set (USERS s). id_u u = user_id"
  shows "patch_user lower user_id no_changes s
           = (Inr (USERS s ! nat (find_user_index (USERS s) user_id)), s)
       \<and> id_u (USERS s ! nat (find_user_index (USERS s) user_id)) = user_id
       \<and> get_user user_id True s
           = (Inr (USERS s ! nat (find_user_index (USERS s) user_id)), s)"
proof -
  from assms have ne: "find_user_index (USERS s) user_id \<noteq> - 1"
    by (simp add: find_user_index_absent)
  have "patch_user lower user_id no_changes s
          = (Inr (USERS s ! nat (find_user_index (USERS s) user_id)), s)"
    using ne by (simp add: patch_user_def Let_def update_given_unset no_changes_def [symmetric])
      (simp add: no_changes_def)
  moreover have "get_user user_id True s
          = (Inr (USERS s ! nat (find_user_index (USERS s) user_id)), s)"
    using ne by (simp add: get_user_def Let_def)
  ultimately show ?thesis using find_user_index_hit(3) [OF ne] by simp
qed

theorem patch_empty_unchanged_witness:
  "(\<exists>u \<in> set (USERS store_ann_carl). id_u u = 2)
   \<and> patch_user lower_latin1 2 no_changes store_ann_carl
       = (Inr (USERS store_ann_carl ! nat (find_user_index (USERS store_ann_carl) 2)),
          store_ann_carl)
   \<and> id_u (USERS store_ann_carl ! nat (find_user_index (USERS store_ann_carl) 2)) = 2
   \<and> get_user 2 True store_ann_carl
       = (Inr (USERS store_ann_carl ! nat (find_user_index (USERS store_ann_carl) 2)),
          store_ann_carl)"
proof -
  have h: "\<exists>u \<in> set (USERS store_ann_carl). id_u u = 2"
    by code_simp
  from patch_empty_unchanged [OF h] h show ?thesis by simp
qed


section \<open>The store invariant\<close>

lemma any_email_Some:
  "\<forall>u \<in> set us. email u \<noteq> None \<Longrightarrow>
     any_email lower us e = Inr (has_email lower us e)"
  by (induction us) (auto simp: lower_email_def has_email_def)

lemma any_other_email_Some:
  "\<forall>u \<in> set us. email u \<noteq> None \<Longrightarrow>
     any_other_email lower us (Some e) uid = Inr (other_has_email lower us uid e)"
proof (induction us)
  case Nil
  then show ?case by (simp add: other_has_email_def)
next
  case (Cons a us)
  then obtain y where y: "email a = Some y" by auto
  from Cons have IH: "any_other_email lower us (Some e) uid = Inr (other_has_email lower us uid e)"
    by simp
  show ?case
  proof (cases "lower y = lower e \<and> id_u a \<noteq> uid")
    case True
    with y show ?thesis by (auto simp: lower_email_def other_has_email_def)
  next
    case False
    with y have "any_other_email lower (a # us) (Some e) uid = any_other_email lower us (Some e) uid"
      by auto
    moreover from False y have "\<not> (lower_email lower a = Some (lower e) \<and> id_u a \<noteq> uid)"
      by (auto simp: lower_email_def)
    ultimately show ?thesis using IH by (auto simp: other_has_email_def)
  qed
qed

lemma any_other_email_None:
  "us \<noteq> [] \<Longrightarrow> any_other_email lower us None uid = Inl AttributeError"
  by (cases us) (auto split: option.splits)

lemma distinct_map_update:
  assumes "distinct (map f xs)" and "i < length xs"
    and "\<forall>j < length xs. j \<noteq> i \<longrightarrow> f (xs ! j) \<noteq> f y"
  shows "distinct (map f (xs[i := y]))"
  using assms by (auto simp: distinct_conv_nth nth_list_update)

lemma map_update_same:
  "i < length xs \<Longrightarrow> f y = f (xs ! i) \<Longrightarrow> map f (xs[i := y]) = map f xs"
  by (simp add: map_update list_update_same_conv)

lemma distinct_pop: "distinct xs \<Longrightarrow> distinct (pop i xs)"
proof -
  assume d: "distinct xs"
  from d have "distinct (take i xs @ drop i xs)" by simp
  then have "set (take i xs) \<inter> set (drop i xs) = {}"
    unfolding distinct_append by blast
  moreover have "set (drop (Suc i) xs) \<subseteq> set (drop i xs)"
    by (simp add: set_drop_subset_set_drop)
  ultimately have "set (take i xs) \<inter> set (drop (Suc i) xs) = {}" by blast
  with d show ?thesis by (simp add: pop_def)
qed

lemma map_pop: "map f (pop i xs) = pop i (map f xs)"
  by (simp add: pop_def take_map drop_map)

lemma set_pop: "set (pop i xs) \<subseteq> set xs"
  using set_take_subset [of i xs] set_drop_subset [of "Suc i" xs] by (auto simp: pop_def)

lemma create_user_cases:
  assumes "\<forall>u \<in> set (USERS s). email u \<noteq> None"
  shows "create_user lower p now s =
     (if has_email lower (USERS s) (c_email p)
      then (Inl (DuplicateEmailError (c_email p)), s)
      else (Inr \<lparr>id_u = USER_ID s, name = Some (c_name p), email = Some (c_email p),
                 age = Some (c_age p), bio = c_bio p, addresses = Some (c_addresses p),
                 created_at = now\<rparr>,
            s\<lparr>USERS := USERS s @ [\<lparr>id_u = USER_ID s, name = Some (c_name p),
                 email = Some (c_email p), age = Some (c_age p), bio = c_bio p,
                 addresses = Some (c_addresses p), created_at = now\<rparr>],
              USER_ID := USER_ID s + 1\<rparr>))"
  by (simp add: create_user_def any_email_Some [OF assms] Let_def)

lemma store_inv_create:
  assumes "store_inv lower s"
  shows "store_inv lower (snd (create_user lower p now s))"
proof -
  from assms have em: "\<forall>u \<in> set (USERS s). email u \<noteq> None"
    by (simp add: store_inv_def)
  show ?thesis
  proof (cases "has_email lower (USERS s) (c_email p)")
    case True
    with assms show ?thesis by (simp add: create_user_cases [OF em])
  next
    case False
    then have "Some (lower (c_email p)) \<notin> lower_email lower ` set (USERS s)"
      by (force simp: has_email_def)
    with assms False show ?thesis
      by (simp add: create_user_cases [OF em] store_inv_def unique_emails_def)
        (force simp: lower_email_def)
  qed
qed

lemma get_user_store: "snd (get_user uid inc s) = s"
  by (simp add: get_user_def Let_def)

lemma list_users_store: "snd (list_users lower pg lim q mn mx sb ord s) = s"
  by (simp add: list_users_def Let_def split: sum.splits)

lemma store_inv_delete: "store_inv lower s \<Longrightarrow> store_inv lower (snd (delete_user uid s))"
  using set_pop [of "nat (find_user_index (USERS s) uid)" "USERS s"]
  by (auto simp: store_inv_def delete_user_def Let_def unique_emails_def map_pop distinct_pop)

lemma replace_user_cases:
  assumes "\<forall>u \<in> set (USERS s). email u \<noteq> None"
  shows "replace_user lower uid p s =
     (if find_user_index (USERS s) uid = - 1 then (Inl (not_found uid), s)
      else if other_has_email lower (USERS s) uid (c_email p)
      then (Inl (DuplicateEmailError (c_email p)), s)
      else (Inr (update_all p (USERS s ! nat (find_user_index (USERS s) uid))),
            s\<lparr>USERS := (USERS s)[nat (find_user_index (USERS s) uid)
                         := update_all p (USERS s ! nat (find_user_index (USERS s) uid))]\<rparr>))"
  by (simp add: replace_user_def any_other_email_Some [OF assms] Let_def)

lemma patch_user_cases:
  assumes "\<forall>u \<in> set (USERS s). email u \<noteq> None"
  shows "patch_user lower uid ch s =
     (if find_user_index (USERS s) uid = - 1 then (Inl (not_found uid), s)
      else if p_email ch = Given None then (Inl AttributeError, s)
      else if \<exists>e. p_email ch = Given (Some e) \<and> other_has_email lower (USERS s) uid e
      then (Inl (DuplicateEmailError (case p_email ch of Given (Some e) \<Rightarrow> e | _ \<Rightarrow> [])), s)
      else (Inr (update_given ch (USERS s ! nat (find_user_index (USERS s) uid))),
            s\<lparr>USERS := (USERS s)[nat (find_user_index (USERS s) uid)
                         := update_given ch (USERS s ! nat (find_user_index (USERS s) uid))]\<rparr>))"
proof (cases "find_user_index (USERS s) uid = - 1")
  case True
  then show ?thesis by (simp add: patch_user_def)
next
  case False
  from find_user_index_hit(2) [OF False] have ne: "USERS s \<noteq> []" by auto
  show ?thesis
  proof (cases "p_email ch")
    case Unset
    with False show ?thesis by (simp add: patch_user_def Let_def)
  next
    case (Given eo)
    show ?thesis
    proof (cases eo)
      case None
      with Given False ne show ?thesis
        by (simp add: patch_user_def Let_def any_other_email_None)
    next
      case (Some e)
      with Given False show ?thesis
        by (simp add: patch_user_def Let_def any_other_email_Some [OF assms])
    qed
  qed
qed

lemma store_inv_update:
  assumes inv: "store_inv lower s"
    and hit: "find_user_index (USERS s) uid \<noteq> - 1"
    and id: "id_u u' = id_u (USERS s ! nat (find_user_index (USERS s) uid))"
    and em: "email u' \<noteq> None"
    and other: "lower_email lower u' = lower_email lower (USERS s ! nat (find_user_index (USERS s) uid))
       \<or> \<not> (\<exists>u \<in> set (USERS s). id_u u \<noteq> uid \<and> lower_email lower u = lower_email lower u')"
  shows "store_inv lower (s\<lparr>USERS := (USERS s)[nat (find_user_index (USERS s) uid) := u']\<rparr>)"
proof -
  let ?i = "nat (find_user_index (USERS s) uid)"
  let ?us = "USERS s"
  from find_user_index_hit [OF hit] have i: "?i < length ?us" and idi: "id_u (?us ! ?i) = uid"
    by simp_all
  from inv have dids: "distinct (map id_u ?us)" and dem: "distinct (map (lower_email lower) ?us)"
    and bound: "\<forall>u \<in> set ?us. id_u u < USER_ID s \<and> email u \<noteq> None" and one: "1 \<le> USER_ID s"
    by (simp_all add: store_inv_def unique_emails_def)
  have ids: "map id_u (?us[?i := u']) = map id_u ?us"
    using i id by (rule map_update_same)
  have "distinct (map (lower_email lower) (?us[?i := u']))"
  proof (cases "lower_email lower u' = lower_email lower (?us ! ?i)")
    case True
    with i have "map (lower_email lower) (?us[?i := u']) = map (lower_email lower) ?us"
      by (rule map_update_same)
    with dem show ?thesis by simp
  next
    case False
    with other have no: "\<forall>u \<in> set ?us. id_u u \<noteq> uid \<longrightarrow> lower_email lower u \<noteq> lower_email lower u'"
      by blast
    have "\<forall>j < length ?us. j \<noteq> ?i \<longrightarrow> lower_email lower (?us ! j) \<noteq> lower_email lower u'"
    proof (intro allI impI)
      fix j assume j: "j < length ?us" and ji: "j \<noteq> ?i"
      from dids j i ji have "id_u (?us ! j) \<noteq> id_u (?us ! ?i)"
        by (auto simp: distinct_conv_nth)
      with idi no j show "lower_email lower (?us ! j) \<noteq> lower_email lower u'" by simp
    qed
    with dem i show ?thesis by (rule distinct_map_update)
  qed
  moreover have "\<forall>u \<in> set (?us[?i := u']). id_u u < USER_ID s \<and> email u \<noteq> None"
  proof
    fix u assume "u \<in> set (?us[?i := u'])"
    then have "u = u' \<or> u \<in> set ?us"
      using set_update_subset_insert [of ?us ?i u'] by auto
    moreover from bound i id have "id_u u' < USER_ID s" by simp
    ultimately show "id_u u < USER_ID s \<and> email u \<noteq> None" using bound em by auto
  qed
  ultimately show ?thesis using dids one ids
    by (simp add: store_inv_def unique_emails_def)
qed

lemma lower_email_update_all [simp]: "lower_email lower (update_all p u) = Some (lower (c_email p))"
  by (simp add: update_all_def lower_email_def)

lemma store_inv_replace:
  assumes "store_inv lower s"
  shows "store_inv lower (snd (replace_user lower uid p s))"
proof -
  from assms have em: "\<forall>u \<in> set (USERS s). email u \<noteq> None"
    by (simp add: store_inv_def)
  let ?old = "USERS s ! nat (find_user_index (USERS s) uid)"
  show ?thesis
  proof (cases "find_user_index (USERS s) uid = - 1 \<or> other_has_email lower (USERS s) uid (c_email p)")
    case True
    with assms show ?thesis by (auto simp: replace_user_cases [OF em])
  next
    case False
    then have hit: "find_user_index (USERS s) uid \<noteq> - 1"
      and no: "\<not> other_has_email lower (USERS s) uid (c_email p)" by simp_all
    from no have "\<not> (\<exists>u \<in> set (USERS s). id_u u \<noteq> uid
        \<and> lower_email lower u = lower_email lower (update_all p ?old))"
      by (simp add: other_has_email_def)
    then have "store_inv lower (s\<lparr>USERS := (USERS s)[nat (find_user_index (USERS s) uid)
        := update_all p ?old]\<rparr>)"
      by (intro store_inv_update [OF assms hit]) (simp_all add: update_all_def)
    with hit no show ?thesis by (simp add: replace_user_cases [OF em])
  qed
qed

lemma store_inv_patch:
  assumes "store_inv lower s"
  shows "store_inv lower (snd (patch_user lower uid ch s))"
proof -
  from assms have em: "\<forall>u \<in> set (USERS s). email u \<noteq> None"
    by (simp add: store_inv_def)
  let ?old = "USERS s ! nat (find_user_index (USERS s) uid)"
  let ?new = "update_given ch ?old"
  let ?s' = "s\<lparr>USERS := (USERS s)[nat (find_user_index (USERS s) uid) := ?new]\<rparr>"
  show ?thesis
  proof (cases "snd (patch_user lower uid ch s) = s")
    case True
    with assms show ?thesis by simp
  next
    case False
    then have hit: "find_user_index (USERS s) uid \<noteq> - 1"
      and nn: "p_email ch \<noteq> Given None"
      and no: "\<not> (\<exists>e. p_email ch = Given (Some e) \<and> other_has_email lower (USERS s) uid e)"
      and res: "snd (patch_user lower uid ch s) = ?s'"
      by (auto simp: patch_user_cases [OF em] split: if_splits)
    from find_user_index_hit(2) [OF hit] em have old: "email ?old \<noteq> None" by simp
    have "store_inv lower ?s'"
    proof (cases "p_email ch")
      case Unset
      then have "email ?new = email ?old" "id_u ?new = id_u ?old"
        by (simp_all add: update_given_def set_field_def)
      with old show ?thesis
        by (intro store_inv_update [OF assms hit]) (simp_all add: lower_email_def)
    next
      case (Given eo)
      with nn obtain e where e: "p_email ch = Given (Some e)" by (cases eo) auto
      then have new: "email ?new = Some e" "id_u ?new = id_u ?old"
        by (simp_all add: update_given_def set_field_def)
      from e no have "\<not> other_has_email lower (USERS s) uid e" by simp
      with new have "\<not> (\<exists>u \<in> set (USERS s). id_u u \<noteq> uid \<and> lower_email lower u = lower_email lower ?new)"
        by (simp add: other_has_email_def lower_email_def)
      with new show ?thesis
        by (intro store_inv_update [OF assms hit]) simp_all
    qed
    with res show ?thesis by simp
  qed
qed

lemma store_inv_handle: "store_inv lower s \<Longrightarrow> store_inv lower (handle lower r s)"
  by (cases r)
    (simp_all add: store_inv_create get_user_store list_users_store store_inv_replace
      store_inv_patch store_inv_delete)

lemma store_inv_init: "store_inv lower init_store"
  by (simp add: store_inv_def init_store_def unique_emails_def)

lemma reachable_inv: "reachable lower s \<Longrightarrow> store_inv lower s"
  by (induction rule: reachable.induct) (simp_all add: store_inv_init store_inv_handle)


section \<open>Email uniqueness\<close>

lemma reachable_store_ann_carl: "reachable lower_latin1 store_ann_carl"
  unfolding store_ann_carl_def store_ann_def
  by (intro reachable_step reachable_init)

text \<open>
  Claim C1. In every store that the requests can reach from the empty one, no two users
  share an email up to case (and every email is a string). Create fails with the
  duplicate-email error, which the service answers with 409 Conflict, and leaves the
  store as it is whenever a stored email equals the new one up to case; Replace and
  Patch of an existing user do so whenever a user with another id holds the supplied
  email up to case. The store after any request has unique emails again.
\<close>

theorem email_uniqueness:
  assumes "reachable lower s"
  shows "unique_emails lower (USERS s) \<and> (\<forall>u \<in> set (USERS s). email u \<noteq> None)
       \<and> unique_emails lower (USERS (handle lower r s))
       \<and> (has_email lower (USERS s) (c_email p) \<longrightarrow>
            create_user lower p now s = (Inl (DuplicateEmailError (c_email p)), s))
       \<and> ((\<exists>u \<in> set (USERS s). id_u u = uid) \<and> other_has_email lower (USERS s) uid (c_email p) \<longrightarrow>
            replace_user lower uid p s = (Inl (DuplicateEmailError (c_email p)), s))
       \<and> ((\<exists>u \<in> set (USERS s). id_u u = uid) \<and> p_email ch = Given (Some e)
             \<and> other_has_email lower (USERS s) uid e \<longrightarrow>
            patch_user lower uid ch s = (Inl (DuplicateEmailError e), s))"
proof -
  from assms have inv: "store_inv lower s" by (rule reachable_inv)
  then have em: "\<forall>u \<in> set (USERS s). email u \<noteq> None" by (simp add: store_inv_def)
  from inv have "store_inv lower (handle lower r s)" by (rule store_inv_handle)
  then have "unique_emails lower (USERS (handle lower r s))" by (simp add: store_inv_def)
  moreover from inv have "unique_emails lower (USERS s)" by (simp add: store_inv_def)
  moreover have "has_email lower (USERS s) (c_email p) \<longrightarrow>
      create_user lower p now s = (Inl (DuplicateEmailError (c_email p)), s)"
    by (simp add: create_user_cases [OF em])
  moreover have "(\<exists>u \<in> set (USERS s). id_u u = uid) \<and> other_has_email lower (USERS s) uid (c_email p) \<longrightarrow>
      replace_user lower uid p s = (Inl (DuplicateEmailError (c_email p)), s)"
    by (simp add: replace_user_cases [OF em] find_user_index_absent)
  moreover have "(\<exists>u \<in> set (USERS s). id_u u = uid) \<and> p_email ch = Given (Some e)
       \<and> other_has_email lower (USERS s) uid e \<longrightarrow>
      patch_user lower uid ch s = (Inl (DuplicateEmailError e), s)"
    by (simp add: patch_user_cases [OF em] find_user_index_absent)
  ultimately show ?thesis using em by blast
qed

lemma reachable_store_eve: "reachable lower_latin1 store_eve"
  unfolding store_eve_def by (intro reachable_step reachable_store_ann_carl)

theorem email_uniqueness_witness:
  "reachable lower_latin1 store_eve
   \<and> unique_emails lower_latin1 (USERS store_eve)
   \<and> unique_emails lower_latin1 (USERS (handle lower_latin1 (Replace 2 eve_small) store_eve))
   \<and> has_email lower_latin1 (USERS store_eve) (c_email eve_small)
   \<and> create_user lower_latin1 eve_small 13 store_eve
       = (Inl (DuplicateEmailError (c_email eve_small)), store_eve)
   \<and> (\<exists>u \<in> set (USERS store_eve). id_u u = 2)
   \<and> other_has_email lower_latin1 (USERS store_eve) 2 (c_email eve_small)
   \<and> replace_user lower_latin1 2 eve_small store_eve
       = (Inl (DuplicateEmailError (c_email eve_small)), store_eve)
   \<and> p_email upper_ann = Given (Some (str_of ''ANN@X.COM''))
   \<and> other_has_email lower_latin1 (USERS store_eve) 2 (str_of ''ANN@X.COM'')
   \<and> patch_user lower_latin1 2 upper_ann store_eve
       = (Inl (DuplicateEmailError (str_of ''ANN@X.COM'')), store_eve)"
proof -
  note r = reachable_store_eve
  have h1: "has_email lower_latin1 (USERS store_eve) (c_email eve_small)" by code_simp
  have h2: "\<exists>u \<in> set (USERS store_eve). id_u u = 2" by code_simp
  have h3: "other_has_email lower_latin1 (USERS store_eve) 2 (c_email eve_small)" by code_simp
  have h4: "p_email upper_ann = Given (Some (str_of ''ANN@X.COM''))" by code_simp
  have h5: "other_has_email lower_latin1 (USERS store_eve) 2 (str_of ''ANN@X.COM'')" by code_simp
  from email_uniqueness [OF r, where r = "Replace 2 eve_small" and p = eve_small and now = 13
      and uid = 2 and ch = upper_ann and e = "str_of ''ANN@X.COM''"] r h1 h2 h3 h4 h5
  show ?thesis by blast
qed


section \<open>Identifiers handed out by Create\<close>

lemma create_user_id:
  "fst (create_user lower p now s) = Inr u \<Longrightarrow>
     id_u u = USER_ID s \<and> USER_ID (snd (create_user lower p now s)) = USER_ID s + 1"
  by (auto simp: create_user_def Let_def split: sum.splits bool.splits)

lemma USER_ID_handle: "USER_ID s \<le> USER_ID (handle lower r s)"
proof (cases r)
  case (Create p now)
  then show ?thesis
    by (auto simp: create_user_def Let_def split: sum.splits bool.splits)
next
  case (ListUsers pg lim q mn mx sb ord)
  then show ?thesis by (simp add: list_users_store)
next
  case (Get uid inc)
  then show ?thesis by (simp add: get_user_store)
next
  case (Replace uid p)
  then show ?thesis
    by (auto simp: replace_user_def Let_def split: sum.splits bool.splits)
next
  case (Patch uid ch)
  then show ?thesis
    by (auto simp: patch_user_def Let_def split: sum.splits bool.splits)
next
  case (Delete uid)
  then show ?thesis by (simp add: delete_user_def Let_def)
qed

lemma USER_ID_run: "USER_ID s \<le> USER_ID (run lower rs s)"
proof (induction rs arbitrary: s)
  case Nil
  then show ?case by simp
next
  case (Cons r rs)
  from USER_ID_handle [of s lower r] Cons.IH [of "handle lower r s"] show ?case by simp
qed

lemma issued_by_id:
  "i \<in> set (issued_by lower r s) \<Longrightarrow> i = USER_ID s \<and> USER_ID (handle lower r s) = USER_ID s + 1"
proof (cases r)
  case (Create p now)
  assume i: "i \<in> set (issued_by lower r s)"
  show ?thesis
  proof (cases "fst (create_user lower p now s)")
    case (Inl e)
    with i Create show ?thesis by (simp add: issued_by_def)
  next
    case (Inr u)
    with i Create have "i = id_u u" by (simp add: issued_by_def)
    with create_user_id [OF Inr] Create show ?thesis by simp
  qed
qed (simp_all add: issued_by_def)

lemma issued_bounds: "i \<in> set (issued lower rs s) \<Longrightarrow> USER_ID s \<le> i \<and> i < USER_ID (run lower rs s)"
proof (induction rs arbitrary: s)
  case Nil
  then show ?case by simp
next
  case (Cons r rs)
  from Cons.prems consider "i \<in> set (issued_by lower r s)" | "i \<in> set (issued lower rs (handle lower r s))"
    by auto
  then show ?case
  proof cases
    case 1
    from issued_by_id [OF 1] USER_ID_run [of "handle lower r s" lower rs] show ?thesis by simp
  next
    case 2
    from Cons.IH [OF 2] USER_ID_handle [of s lower r] show ?thesis by simp
  qed
qed

lemma issued_by_short: "length (issued_by lower r s) \<le> 1"
  by (cases r) (auto simp: issued_by_def split: sum.splits)

lemma issued_increasing: "sorted_wrt (<) (issued lower rs s)"
proof (induction rs arbitrary: s)
  case Nil
  then show ?case by simp
next
  case (Cons r rs)
  have "sorted_wrt (<) (issued_by lower r s)"
    using issued_by_short [of lower r s] by (cases "issued_by lower r s") auto
  moreover have "\<forall>x \<in> set (issued_by lower r s). \<forall>y \<in> set (issued lower rs (handle lower r s)). x < y"
    using issued_by_id issued_bounds by fastforce
  ultimately show ?case using Cons.IH by (simp add: sorted_wrt_append)
qed

text \<open>
  Claim C3. The counter starts at 1: the first Create on the empty store returns id 1.
  Along any sequence of requests from the empty store the ids handed out are strictly
  increasing, and a Create that succeeds afterwards returns an id greater than every id
  handed out before, whether or not those users are still stored.
\<close>

theorem create_id_monotonic:
  "(\<exists>u. fst (create_user lower p now init_store) = Inr u \<and> id_u u = 1)
   \<and> sorted_wrt (<) (issued lower rs init_store)
   \<and> (fst (create_user lower p' now' (run lower rs init_store)) = Inr u' \<longrightarrow>
        (\<forall>i \<in> set (issued lower rs init_store). i < id_u u'))"
proof -
  have "\<exists>u. fst (create_user lower p now init_store) = Inr u \<and> id_u u = 1"
    by (simp add: create_user_def init_store_def Let_def)
  moreover have "fst (create_user lower p' now' (run lower rs init_store)) = Inr u' \<longrightarrow>
        (\<forall>i \<in> set (issued lower rs init_store). i < id_u u')"
    using issued_bounds [of _ lower rs init_store] by (auto dest: create_user_id)
  ultimately show ?thesis using issued_increasing by blast
qed

theorem create_id_monotonic_witness:
  "fst (create_user lower_latin1 bob 9 (run lower_latin1 scenario init_store))
     = Inr \<lparr>id_u = 3, name = Some (str_of ''Bob''), email = Some (str_of ''ann@X.com''), age = Some 22,
            bio = None, addresses = Some [], created_at = 9\<rparr>
   \<and> issued lower_latin1 scenario init_store = [1, 2]
   \<and> USERS (run lower_latin1 scenario init_store) = []
   \<and> sorted_wrt (<) (issued lower_latin1 scenario init_store)"
proof -
  have h: "fst (create_user lower_latin1 bob 9 (run lower_latin1 scenario init_store))
     = Inr \<lparr>id_u = 3, name = Some (str_of ''Bob''), email = Some (str_of ''ann@X.com''), age = Some 22,
            bio = None, addresses = Some [], created_at = 9\<rparr>"
    by code_simp
  have i: "issued lower_latin1 scenario init_store = [1, 2]" by code_simp
  have e: "USERS (run lower_latin1 scenario init_store) = []" by code_simp
  from create_id_monotonic [where lower = lower_latin1 and p = ann and now = 5 and rs = scenario
      and p' = bob and now' = 9] h i e
  show ?thesis by simp
qed

section \<open>Create, then get\<close>

lemma find_from_append_last:
  "\<forall>x \<in> set xs. id_u x \<noteq> uid \<Longrightarrow> id_u u = uid \<Longrightarrow>
     find_from (xs @ [u]) uid i = i + int (length xs)"
  by (induction xs arbitrary: i) auto

text \<open>
  Claim C4. In a reachable store, when Create succeeds with user \<open>u\<close>, Get on the
  returned id (with addresses included) returns \<open>u\<close>; its name, email, age, bio and
  addresses are those of the payload, its id is the counter value and its creation
  time the one stamped by Create.
\<close>

theorem create_get_roundtrip:
  assumes "reachable lower s" and "create_user lower p now s = (Inr u, s')"
  shows "get_user (id_u u) True s' = (Inr u, s')
       \<and> name u = Some (c_name p) \<and> email u = Some (c_email p) \<and> age u = Some (c_age p)
       \<and> bio u = c_bio p \<and> addresses u = Some (c_addresses p)
       \<and> id_u u = USER_ID s \<and> created_at u = now"
proof -
  from assms(1) have inv: "store_inv lower s" by (rule reachable_inv)
  then have em: "\<forall>x \<in> set (USERS s). email x \<noteq> None"
    and lt: "\<forall>x \<in> set (USERS s). id_u x \<noteq> USER_ID s"
    by (auto simp: store_inv_def)
  from assms(2) have u: "u = \<lparr>id_u = USER_ID s, name = Some (c_name p), email = Some (c_email p),
      age = Some (c_age p), bio = c_bio p, addresses = Some (c_addresses p), created_at = now\<rparr>"
    and s': "s' = s\<lparr>USERS := USERS s @ [u], USER_ID := USER_ID s + 1\<rparr>"
    by (auto simp: create_user_cases [OF em] split: if_splits)
  from u have id: "id_u u = USER_ID s" by simp
  from find_from_append_last [OF lt id, of 0]
  have "find_user_index (USERS s') (id_u u) = int (length (USERS s))"
    by (simp add: find_user_index_def s' id)
  then have "get_user (id_u u) True s' = (Inr u, s')"
    by (simp add: get_user_def Let_def s')
  with u show ?thesis by simp
qed

theorem create_get_roundtrip_witness:
  "reachable lower_latin1 store_ann_carl
   \<and> create_user lower_latin1 \<lparr>c_name = str_of ''Dora'', c_email = str_of ''d@z.io'', c_age = 19, c_bio = None,
        c_addresses = [\<lparr>city = str_of ''Oslo'', country = str_of ''Norway''\<rparr>]\<rparr> 11 store_ann_carl
      = (Inr \<lparr>id_u = 3, name = Some (str_of ''Dora''), email = Some (str_of ''d@z.io''), age = Some 19, bio = None,
          addresses = Some [\<lparr>city = str_of ''Oslo'', country = str_of ''Norway''\<rparr>], created_at = 11\<rparr>,
         store_ann_carl\<lparr>USERS := USERS store_ann_carl @
           [\<lparr>id_u = 3, name = Some (str_of ''Dora''), email = Some (str_of ''d@z.io''), age = Some 19, bio = None,
             addresses = Some [\<lparr>city = str_of ''Oslo'', country = str_of ''Norway''\<rparr>], created_at = 11\<rparr>],
           USER_ID := 4\<rparr>)
   \<and> get_user 3 True (store_ann_carl\<lparr>USERS := USERS store_ann_carl @
           [\<lparr>id_u = 3, name = Some (str_of ''Dora''), email = Some (str_of ''d@z.io''), age = Some 19, bio = None,
             addresses = Some [\<lparr>city = str_of ''Oslo'', country = str_of ''Norway''\<rparr>], created_at = 11\<rparr>],
           USER_ID := 4\<rparr>)
      = (Inr \<lparr>id_u = 3, name = Some (str_of ''Dora''), email = Some (str_of ''d@z.io''), age = Some 19, bio = None,
          addresses = Some [\<lparr>city = str_of ''Oslo'', country = str_of ''Norway''\<rparr>], created_at = 11\<rparr>,
         store_ann_carl\<lparr>USERS := USERS store_ann_carl @
           [\<lparr>id_u = 3, name = Some (str_of ''Dora''), email = Some (str_of ''d@z.io''), age = Some 19, bio = None,
             addresses = Some [\<lparr>city = str_of ''Oslo'', country = str_of ''Norway''\<rparr>], created_at = 11\<rparr>],
           USER_ID := 4\<rparr>)"
proof -
  have c: "create_user lower_latin1 \<lparr>c_name = str_of ''Dora'', c_email = str_of ''d@z.io'', c_age = 19, c_bio = None,
        c_addresses = [\<lparr>city = str_of ''Oslo'', country = str_of ''Norway''\<rparr>]\<rparr> 11 store_ann_carl
      = (Inr \<lparr>id_u = 3, name = Some (str_of ''Dora''), email = Some (str_of ''d@z.io''), age = Some 19, bio = None,
          addresses = Some [\<lparr>city = str_of ''Oslo'', country = str_of ''Norway''\<rparr>], created_at = 11\<rparr>,
         store_ann_carl\<lparr>USERS := USERS store_ann_carl @
           [\<lparr>id_u = 3, name = Some (str_of ''Dora''), email = Some (str_of ''d@z.io''), age = Some 19, bio = None,
             addresses = Some [\<lparr>city = str_of ''Oslo'', country = str_of ''Norway''\<rparr>], created_at = 11\<rparr>],
           USER_ID := 4\<rparr>)"
    by code_simp
  from create_get_roundtrip [OF reachable_store_ann_carl c] reachable_store_ann_carl c
  show ?thesis by simp
qed


section \<open>Replace\<close>

lemma find_from_ids:
  "map id_u us = map id_u vs \<Longrightarrow> find_from us uid i = find_from vs uid i"
proof (induction us arbitrary: vs i)
  case Nil
  then show ?case by simp
next
  case (Cons u us)
  then obtain v vs' where vs: "vs = v # vs'" by (cases vs) auto
  with Cons.prems have "id_u u = id_u v" "map id_u us = map id_u vs'" by simp_all
  with Cons.IH [of vs' "i + 1"] vs show ?case by simp
qed

lemma find_user_index_update:
  assumes "find_user_index us uid \<noteq> - 1"
    and "id_u u' = id_u (us ! nat (find_user_index us uid))"
  shows "find_user_index (us[nat (find_user_index us uid) := u']) uid = find_user_index us uid"
proof -
  from find_user_index_hit(2) [OF assms(1)] assms(2)
  have "map id_u (us[nat (find_user_index us uid) := u']) = map id_u us"
    by (rule map_update_same)
  then show ?thesis unfolding find_user_index_def by (rule find_from_ids)
qed

text \<open>
  Claim C6. In a reachable store, for an id that exists and a payload whose email no
  user with another id holds up to case, Replace succeeds: the user stored at that
  position, which Get returns afterwards, has the payload's name, email, age, bio and
  addresses, whatever the old values were, and the id and creation time it had before.
\<close>

theorem replace_overwrites:
  assumes "reachable lower s"
    and "\<exists>u \<in> set (USERS s). id_u u = uid"
    and "\<not> other_has_email lower (USERS s) uid (c_email p)"
  shows "\<exists>old new.
           get_user uid True s = (Inr old, s)
         \<and> replace_user lower uid p s
             = (Inr new, s\<lparr>USERS := (USERS s)[nat (find_user_index (USERS s) uid) := new]\<rparr>)
         \<and> get_user uid True (snd (replace_user lower uid p s)) = (Inr new, snd (replace_user lower uid p s))
         \<and> name new = Some (c_name p) \<and> email new = Some (c_email p) \<and> age new = Some (c_age p)
         \<and> bio new = c_bio p \<and> addresses new = Some (c_addresses p)
         \<and> id_u new = uid \<and> id_u old = uid \<and> created_at new = created_at old"
proof -
  let ?i = "nat (find_user_index (USERS s) uid)"
  let ?old = "USERS s ! ?i"
  let ?new = "update_all p ?old"
  let ?s' = "s\<lparr>USERS := (USERS s)[?i := ?new]\<rparr>"
  from assms(1) have "store_inv lower s" by (rule reachable_inv)
  then have em: "\<forall>u \<in> set (USERS s). email u \<noteq> None" by (simp add: store_inv_def)
  from assms(2) have hit: "find_user_index (USERS s) uid \<noteq> - 1"
    by (simp add: find_user_index_absent)
  note h = find_user_index_hit [OF hit]
  have g: "get_user uid True s = (Inr ?old, s)"
    using hit by (simp add: get_user_def Let_def)
  have r: "replace_user lower uid p s = (Inr ?new, ?s')"
    using hit assms(3) by (simp add: replace_user_cases [OF em])
  have idn: "id_u ?new = id_u ?old" by (simp add: update_all_def)
  from find_user_index_update [OF hit idn]
  have "get_user uid True ?s' = (Inr ?new, ?s')"
    using hit h(2) by (simp add: get_user_def Let_def)
  with r have g': "get_user uid True (snd (replace_user lower uid p s))
      = (Inr ?new, snd (replace_user lower uid p s))" by simp
  have f: "name ?new = Some (c_name p) \<and> email ?new = Some (c_email p)
      \<and> age ?new = Some (c_age p) \<and> bio ?new = c_bio p \<and> addresses ?new = Some (c_addresses p)
      \<and> id_u ?new = uid \<and> id_u ?old = uid \<and> created_at ?new = created_at ?old"
    using h(3) by (simp add: update_all_def)
  from g r g' f show ?thesis by blast
qed

theorem replace_overwrites_witness:
  "reachable lower_latin1 store_ann_carl
   \<and> (\<exists>u \<in> set (USERS store_ann_carl). id_u u = 1)
   \<and> \<not> other_has_email lower_latin1 (USERS store_ann_carl) 1 (c_email ann_again)
   \<and> (\<exists>old new.
           get_user 1 True store_ann_carl = (Inr old, store_ann_carl)
         \<and> replace_user lower_latin1 1 ann_again store_ann_carl
             = (Inr new, store_ann_carl\<lparr>USERS := (USERS store_ann_carl)
                  [nat (find_user_index (USERS store_ann_carl) 1) := new]\<rparr>)
         \<and> get_user 1 True (snd (replace_user lower_latin1 1 ann_again store_ann_carl))
             = (Inr new, snd (replace_user lower_latin1 1 ann_again store_ann_carl))
         \<and> name new = Some (c_name ann_again) \<and> email new = Some (c_email ann_again)
         \<and> age new = Some (c_age ann_again)
         \<and> bio new = c_bio ann_again \<and> addresses new = Some (c_addresses ann_again)
         \<and> id_u new = 1 \<and> id_u old = 1 \<and> created_at new = created_at old)"
proof -
  have h1: "\<exists>u \<in> set (USERS store_ann_carl). id_u u = 1" by code_simp
  have h2: "\<not> other_has_email lower_latin1 (USERS store_ann_carl) 1 (c_email ann_again)" by code_simp
  from replace_overwrites [OF reachable_store_ann_carl h1 h2] reachable_store_ann_carl h1 h2
  show ?thesis by blast
qed

section \<open>Absent ids\<close>

text \<open>
  Claim C7. When no stored user has the id, Get, Replace, Patch and Delete of the user
  service raise the 404 exception and return the store as it was; when no row has the
  id, Get, Update and Delete of the student service do the same with the table.
\<close>

theorem absent_id_not_found:
  assumes "\<forall>u \<in> set (USERS s). id_u u \<noteq> user_id"
    and "\<forall>r \<in> set d. id_st r \<noteq> student_id"
  shows "get_user user_id inc s
           = (Inl (HTTPException 404 (str_of ''User '' @ str_int user_id @ str_of '' not found'')), s)
       \<and> replace_user lower user_id payload s
           = (Inl (HTTPException 404 (str_of ''User '' @ str_int user_id @ str_of '' not found'')), s)
       \<and> patch_user lower user_id changes s
           = (Inl (HTTPException 404 (str_of ''User '' @ str_int user_id @ str_of '' not found'')), s)
       \<and> delete_user user_id s
           = (Inl (HTTPException 404 (str_of ''User '' @ str_int user_id @ str_of '' not found'')), s)
       \<and> get_student student_id d
           = (Inl (HTTPException 404
                (str_of ''Student with the id '' @ str_int student_id @ str_of '' is not available'')), d)
       \<and> update_student student_id request d
           = (Inl (HTTPException 404
                (str_of ''Student with the id '' @ str_int student_id @ str_of '' is not available'')), d)
       \<and> delete_student student_id d
           = (Inl (HTTPException 404
                (str_of ''Student with the id '' @ str_int student_id @ str_of '' is not available'')), d)"
proof -
  from assms(1) have a: "find_user_index (USERS s) user_id = - 1"
    by (simp add: find_user_index_absent)
  from assms(2) have b: "first (query_filter_id d student_id) = None"
    by (simp add: first_def query_filter_id_def filter_empty_conv [THEN iffD2])
  from a b show ?thesis
    by (simp add: get_user_def replace_user_def patch_user_def delete_user_def not_found_def
        get_student_def update_student_def delete_student_def not_available_def)
qed

theorem absent_id_not_found_witness:
  "7 \<notin> set (map id_u (USERS store_ann_carl))
   \<and> 4 \<notin> set (map id_st [asha])
   \<and> get_user 7 True store_ann_carl = (Inl (HTTPException 404 (str_of ''User 7 not found'')), store_ann_carl)
   \<and> replace_user lower_latin1 7 bob store_ann_carl
        = (Inl (HTTPException 404 (str_of ''User 7 not found'')), store_ann_carl)
   \<and> patch_user lower_latin1 7 upper_ann store_ann_carl
        = (Inl (HTTPException 404 (str_of ''User 7 not found'')), store_ann_carl)
   \<and> delete_user 7 store_ann_carl = (Inl (HTTPException 404 (str_of ''User 7 not found'')), store_ann_carl)
   \<and> get_student 4 [asha]
        = (Inl (HTTPException 404 (str_of ''Student with the id 4 is not available'')), [asha])
   \<and> update_student 4 asha_update [asha]
        = (Inl (HTTPException 404 (str_of ''Student with the id 4 is not available'')), [asha])
   \<and> delete_student 4 [asha]
        = (Inl (HTTPException 404 (str_of ''Student with the id 4 is not available'')), [asha])"
proof -
  have h1: "\<forall>u \<in> set (USERS store_ann_carl). id_u u \<noteq> 7" by code_simp
  have h2: "\<forall>r \<in> set [asha]. id_st r \<noteq> 4" by code_simp
  have s7: "str_int 7 = str_of ''7''" by code_simp
  have s4: "str_int 4 = str_of ''4''" by code_simp
  from h1 h2 have "7 \<notin> set (map id_u (USERS store_ann_carl))"
    and "4 \<notin> set (map id_st [asha])" by auto
  with absent_id_not_found [OF h1 h2, where inc = True and lower = lower_latin1 and payload = bob
      and changes = upper_ann and request = asha_update]
  show ?thesis by (simp add: s7 s4 str_of_def)
qed


section \<open>Patch with supplied fields\<close>

text \<open>
  In a reachable store, for an id that exists and a change set whose email is not
  \<open>null\<close> and is held by no user with another id, Patch succeeds and writes every
  supplied field, a supplied \<open>null\<close> included: name, age, bio and addresses become the
  supplied value, which may be \<open>None\<close>, and a field that is not supplied keeps its
  value. The id and the creation time stay.
\<close>

lemma patch_writes_supplied:
  assumes "reachable lower s"
    and "\<exists>u \<in> set (USERS s). id_u u = uid"
    and "p_email ch \<noteq> Given None"
    and "\<forall>e. p_email ch = Given (Some e) \<longrightarrow> \<not> other_has_email lower (USERS s) uid e"
  shows "\<exists>old new.
           get_user uid True s = (Inr old, s)
         \<and> patch_user lower uid ch s
             = (Inr new, s\<lparr>USERS := (USERS s)[nat (find_user_index (USERS s) uid) := new]\<rparr>)
         \<and> get_user uid True (snd (patch_user lower uid ch s)) = (Inr new, snd (patch_user lower uid ch s))
         \<and> (\<forall>v. p_name ch = Given v \<longrightarrow> name new = v) \<and> (p_name ch = Unset \<longrightarrow> name new = name old)
         \<and> (\<forall>v. p_age ch = Given v \<longrightarrow> age new = v) \<and> (p_age ch = Unset \<longrightarrow> age new = age old)
         \<and> (\<forall>v. p_bio ch = Given v \<longrightarrow> bio new = v) \<and> (p_bio ch = Unset \<longrightarrow> bio new = bio old)
         \<and> (\<forall>v. p_addresses ch = Given v \<longrightarrow> addresses new = v)
         \<and> (p_addresses ch = Unset \<longrightarrow> addresses new = addresses old)
         \<and> (\<forall>e. p_email ch = Given (Some e) \<longrightarrow> email new = Some e)
         \<and> (p_email ch = Unset \<longrightarrow> email new = email old)
         \<and> id_u new = uid \<and> created_at new = created_at old"
proof -
  let ?i = "nat (find_user_index (USERS s) uid)"
  let ?old = "USERS s ! ?i"
  let ?new = "update_given ch ?old"
  let ?s' = "s\<lparr>USERS := (USERS s)[?i := ?new]\<rparr>"
  from assms(1) have "store_inv lower s" by (rule reachable_inv)
  then have em: "\<forall>u \<in> set (USERS s). email u \<noteq> None" by (simp add: store_inv_def)
  from assms(2) have hit: "find_user_index (USERS s) uid \<noteq> - 1"
    by (simp add: find_user_index_absent)
  note h = find_user_index_hit [OF hit]
  have g: "get_user uid True s = (Inr ?old, s)"
    using hit by (simp add: get_user_def Let_def)
  have r: "patch_user lower uid ch s = (Inr ?new, ?s')"
    using hit assms(3,4) by (simp add: patch_user_cases [OF em])
  have idn: "id_u ?new = id_u ?old" by (simp add: update_given_def)
  from find_user_index_update [OF hit idn]
  have "get_user uid True ?s' = (Inr ?new, ?s')"
    using hit h(2) by (simp add: get_user_def Let_def)
  with r have g': "get_user uid True (snd (patch_user lower uid ch s))
      = (Inr ?new, snd (patch_user lower uid ch s))" by simp
  have f: "(\<forall>v. p_name ch = Given v \<longrightarrow> name ?new = v) \<and> (p_name ch = Unset \<longrightarrow> name ?new = name ?old)
         \<and> (\<forall>v. p_age ch = Given v \<longrightarrow> age ?new = v) \<and> (p_age ch = Unset \<longrightarrow> age ?new = age ?old)
         \<and> (\<forall>v. p_bio ch = Given v \<longrightarrow> bio ?new = v) \<and> (p_bio ch = Unset \<longrightarrow> bio ?new = bio ?old)
         \<and> (\<forall>v. p_addresses ch = Given v \<longrightarrow> addresses ?new = v)
         \<and> (p_addresses ch = Unset \<longrightarrow> addresses ?new = addresses ?old)
         \<and> (\<forall>e. p_email ch = Given (Some e) \<longrightarrow> email ?new = Some e)
         \<and> (p_email ch = Unset \<longrightarrow> email ?new = email ?old)
         \<and> id_u ?new = uid \<and> created_at ?new = created_at ?old"
    using h(3) by (simp add: update_given_def set_field_def)
  from g r g' f show ?thesis by blast
qed

lemma patch_writes_supplied_example:
  "reachable lower_latin1 store_ann_carl
   \<and> (\<exists>u \<in> set (USERS store_ann_carl). id_u u = 1)
   \<and> p_email clear_some = Given (Some (str_of ''ann@new.org''))
   \<and> \<not> other_has_email lower_latin1 (USERS store_ann_carl) 1 (str_of ''ann@new.org'')
   \<and> p_name clear_some = Given None \<and> p_age clear_some = Given None \<and> p_bio clear_some = Given None
   \<and> (\<exists>new. patch_user lower_latin1 1 clear_some store_ann_carl
         = (Inr new, store_ann_carl\<lparr>USERS := (USERS store_ann_carl)
              [nat (find_user_index (USERS store_ann_carl) 1) := new]\<rparr>)
       \<and> name new = None \<and> age new = None \<and> bio new = None \<and> email new = Some (str_of ''ann@new.org''))"
proof -
  have h1: "\<exists>u \<in> set (USERS store_ann_carl). id_u u = 1" by code_simp
  have h2: "p_email clear_some \<noteq> Given None" by code_simp
  have e: "p_email clear_some = Given (Some (str_of ''ann@new.org''))" by code_simp
  have o: "\<not> other_has_email lower_latin1 (USERS store_ann_carl) 1 (str_of ''ann@new.org'')" by code_simp
  from e o have h3: "\<forall>e. p_email clear_some = Given (Some e)
      \<longrightarrow> \<not> other_has_email lower_latin1 (USERS store_ann_carl) 1 e" by simp
  have f: "p_name clear_some = Given None \<and> p_age clear_some = Given None
      \<and> p_bio clear_some = Given None" by code_simp
  from patch_writes_supplied [OF reachable_store_ann_carl h1 h2 h3] e f
  have "\<exists>new. patch_user lower_latin1 1 clear_some store_ann_carl
         = (Inr new, store_ann_carl\<lparr>USERS := (USERS store_ann_carl)
              [nat (find_user_index (USERS store_ann_carl) 1) := new]\<rparr>)
       \<and> name new = None \<and> age new = None \<and> bio new = None \<and> email new = Some (str_of ''ann@new.org'')"
    by blast
  with reachable_store_ann_carl h1 e o f show ?thesis by blast
qed

text \<open>
  Claim C10, at the failing input. After Ann has been created, PATCH of user 1 with
  the body \<open>{"email": null}\<close> does not store \<open>null\<close>: the duplicate check calls
  \<open>.lower()\<close> on \<open>None\<close>, the handler ends with \<open>AttributeError\<close>, and the stored email is
  still the string.
\<close>

theorem patch_null_email_raises:
  "patch_user lower_latin1 1 null_email store_ann = (Inl AttributeError, store_ann)
   \<and> p_email null_email = Given None
   \<and> map email (USERS store_ann) = [Some (str_of ''Ann@x.com'')]"
  by code_simp

section \<open>The phone pattern\<close>

lemma rx_rest_digits:
  "r \<in> set (rx_rest digit (Rep Digit m n) s) \<longleftrightarrow>
     (\<exists>ds. s = ds @ r \<and> m \<le> length ds \<and> length ds \<le> n \<and> (\<forall>c \<in> set ds. digit c))"
proof (induction n arbitrary: m s)
  case 0
  then show ?case by auto
next
  case (Suc n)
  show ?case
  proof
    assume "r \<in> set (rx_rest digit (Rep Digit m (Suc n)) s)"
    then consider "m = 0" "r = s"
      | x xs where "s = x # xs" "digit x" "r \<in> set (rx_rest digit (Rep Digit (m - 1) n) xs)"
      by (auto split: if_splits list.splits)
    then show "\<exists>ds. s = ds @ r \<and> m \<le> length ds \<and> length ds \<le> Suc n \<and> (\<forall>c \<in> set ds. digit c)"
    proof cases
      case 1
      then show ?thesis by simp
    next
      case 2
      from 2(3) Suc.IH obtain ds where "xs = ds @ r" "m - 1 \<le> length ds" "length ds \<le> n"
        "\<forall>c \<in> set ds. digit c" by blast
      with 2(1,2) have "s = (x # ds) @ r \<and> m \<le> length (x # ds) \<and> length (x # ds) \<le> Suc n
          \<and> (\<forall>c \<in> set (x # ds). digit c)" by auto
      then show ?thesis by blast
    qed
  next
    assume "\<exists>ds. s = ds @ r \<and> m \<le> length ds \<and> length ds \<le> Suc n \<and> (\<forall>c \<in> set ds. digit c)"
    then obtain ds where ds: "s = ds @ r" "m \<le> length ds" "length ds \<le> Suc n"
      "\<forall>c \<in> set ds. digit c" by blast
    show "r \<in> set (rx_rest digit (Rep Digit m (Suc n)) s)"
    proof (cases ds)
      case Nil
      with ds show ?thesis by simp
    next
      case (Cons x xs)
      with ds have "xs @ r = xs @ r \<and> m - 1 \<le> length xs \<and> length xs \<le> n \<and> (\<forall>c \<in> set xs. digit c)"
        by auto
      then have "r \<in> set (rx_rest digit (Rep Digit (m - 1) n) (xs @ r))"
        using Suc.IH by blast
      with Cons ds show ?thesis by simp
    qed
  qed
qed

text \<open>
  Claim C5, as amended. The phone field is accepted exactly when it is \<open>+91\<close> followed
  by one to twelve characters that \<open>\d\<close> matches, whatever the class of decimal digits of
  the engine is.
\<close>

theorem phone_accepted_iff:
  "phone_accepted digit s \<longleftrightarrow>
     (\<exists>ds. s = str_of ''+91'' @ ds \<and> 1 \<le> length ds \<and> length ds \<le> 12 \<and> (\<forall>c \<in> set ds. digit c))"
proof -
  have "phone_accepted digit s \<longleftrightarrow>
      (\<exists>t. s = str_of ''+91'' @ t \<and> [] \<in> set (rx_rest digit (Rep Digit 1 12) t))"
    by (auto simp: phone_accepted_def full_match_def phone_pattern_def str_of_def
        split: list.splits if_splits)
  then show ?thesis by (simp add: rx_rest_digits)
qed

theorem phone_accepted_iff_witness:
  "phone_accepted unicode_digit (str_of ''+919876543210'')
   \<and> phone_accepted unicode_digit (str_of ''+91'' @ [0x661, 0x662, 0x663])
   \<and> \<not> phone_accepted unicode_digit (str_of ''+911234567890123'')
   \<and> (\<exists>ds. str_of ''+91'' @ [0x661, 0x662, 0x663] = str_of ''+91'' @ ds \<and> 1 \<le> length ds
         \<and> length ds \<le> 12 \<and> (\<forall>c \<in> set ds. unicode_digit c))"
proof -
  have a: "phone_accepted unicode_digit (str_of ''+919876543210'')" by code_simp
  have b: "phone_accepted unicode_digit (str_of ''+91'' @ [0x661, 0x662, 0x663])" by code_simp
  have c: "\<not> phone_accepted unicode_digit (str_of ''+911234567890123'')" by code_simp
  from phone_accepted_iff [of unicode_digit "str_of ''+91'' @ [0x661, 0x662, 0x663]"] a b c
  show ?thesis by blast
qed

text \<open>
  Claim C5 as stated fails: a plus sign, the country code 1 and ten digits is a phone
  number in the sense of the specification, and the pattern of the schema rejects it.
\<close>

theorem phone_any_country_counterexample:
  "spec_phone unicode_digit (str_of ''+14155550100'')
   \<and> \<not> phone_accepted unicode_digit (str_of ''+14155550100'')"
  by code_simp

section \<open>Upload\<close>

lemma upload_loop_total: "0 < n \<Longrightarrow> upload_loop n rest sz f = (sz + length rest, f @ rest)"
proof (induction n rest sz f rule: upload_loop.induct)
  case (1 n rest sz f)
  show ?case
  proof (cases "take n rest = []")
    case True
    with "1.prems" have "rest = []" by simp
    then show ?thesis by (simp add: upload_loop.simps)
  next
    case False
    from "1.IH" [OF False "1.prems"] False
    have "upload_loop n rest sz f
        = (sz + length (take n rest) + length (drop n rest), (f @ take n rest) @ drop n rest)"
      by (subst upload_loop.simps) simp
    then show ?thesis by simp
  qed
qed

text \<open>
  Claim C9. The loop reads chunks of \<open>1024 * 1024\<close> bytes. For every stream the size
  reported is the number of bytes of the stream and the file written at the
  destination path holds exactly the stream; for a stream of 5 MiB both are
  \<open>5 * 1024 * 1024\<close>.
\<close>

theorem upload_complete:
  "CHUNK = 1024 * 1024
   \<and> size_bytes (fst (upload_file file description user_id dir fs)) = Some (length (stream file))
   \<and> snd (upload_file file description user_id dir fs) (path_join dir (filename file))
       = Some (stream file)
   \<and> (length (stream file) = 5 * 1024 * 1024 \<longrightarrow>
        size_bytes (fst (upload_file file description user_id dir fs)) = Some (5 * 1024 * 1024)
        \<and> (\<exists>written. snd (upload_file file description user_id dir fs)
               (path_join dir (filename file)) = Some written
             \<and> length written = 5 * 1024 * 1024))"
proof -
  have "upload_loop CHUNK (stream file) 0 [] = (length (stream file), stream file)"
    using upload_loop_total [of CHUNK "stream file" 0 "[]"] by (simp add: CHUNK_def)
  then show ?thesis by (simp add: upload_file_def Let_def CHUNK_def)
qed

theorem upload_complete_witness:
  "length (stream five_mib) = 5 * 1024 * 1024
   \<and> size_bytes (fst (upload_file five_mib None None (str_of ''./_uploads'') Map.empty))
       = Some (5 * 1024 * 1024)
   \<and> (\<exists>written. snd (upload_file five_mib None None (str_of ''./_uploads'') Map.empty)
               (path_join (str_of ''./_uploads'') (filename five_mib)) = Some written
             \<and> length written = 5 * 1024 * 1024)"
proof -
  have h: "length (stream five_mib) = 5 * 1024 * 1024"
    by (simp add: five_mib_def)
  from upload_complete [of five_mib None None "str_of ''./_uploads''" Map.empty] h
  show ?thesis by blast
qed


section \<open>List\<close>

lemma str_in_empty [simp]: "str_in [] s"
  by (cases s) simp_all

lemma filter_e_total:
  "\<forall>x \<in> set xs. P x = Inr (Q x) \<Longrightarrow> filter_e P xs = Inr (filter Q xs)"
  by (induction xs) simp_all

lemma slice_window:
  assumes "0 \<le> st" and "0 \<le> lim"
  shows "py_slice xs st (st + lim) = take (nat lim) (drop (nat st) xs)"
proof -
  from assms have e: "nat (st + lim) = nat st + nat lim" by (simp add: nat_add_distrib)
  show ?thesis
  proof (cases "nat st < length xs")
    case True
    have m: "min (a + l) n - a = min l (n - a)" if "a < n" for a l n :: nat
      using that unfolding min_def by auto
    have t: "take (min l (length ys)) ys = take l ys" for l and ys :: "'a list"
      by (cases "l \<le> length ys") (simp_all add: min_def)
    have "take (min (nat st + nat lim) (length xs) - nat st) (drop (nat st) xs)
        = take (nat lim) (drop (nat st) xs)"
      using t [of "nat lim" "drop (nat st) xs"] by (simp add: m [OF True])
    with True assms e show ?thesis
      by (simp add: py_slice_def slice_index_def Let_def min_absorb1)
  next
    case False
    with assms e show ?thesis
      by (simp add: py_slice_def slice_index_def Let_def)
  qed
qed

lemma slice_page:
  assumes "1 \<le> pg" and "1 \<le> lim"
  shows "py_slice xs ((pg - 1) * lim) ((pg - 1) * lim + lim)
       = take (nat lim) (drop (nat ((pg - 1) * lim)) xs)"
proof -
  from assms have "0 \<le> (pg - 1) * lim" and "0 \<le> lim" by simp_all
  then show ?thesis by (rule slice_window)
qed

lemma mset_py_sort: "mset (py_sort f r xs) = mset xs"
  by (simp add: py_sort_def)

lemma py_sort_stable: "filter (\<lambda>y. f y = k) (py_sort f r xs) = filter (\<lambda>y. f y = k) xs"
  by (simp add: py_sort_def sort_key_stable rev_filter [symmetric])

lemma py_sort_stable_sym:
  "filter (\<lambda>y. k = f y) (py_sort f r xs) = filter (\<lambda>y. k = f y) xs"
proof -
  have "(\<lambda>y. k = f y) = (\<lambda>y. f y = k)" by auto
  then show ?thesis by (simp only: py_sort_stable)
qed

lemma py_sort_sorted:
  "sorted_wrt (\<lambda>a b. if r then f b \<le> f a else f a \<le> f b) (py_sort f r xs)"
proof (cases r)
  case True
  have "sorted (map f (sort_key f (rev xs)))" by simp
  then have "sorted_wrt (\<lambda>a b. f a \<le> f b) (sort_key f (rev xs))"
    by (simp only: sorted_map)
  then have "sorted_wrt (\<lambda>a b. f b \<le> f a) (rev (sort_key f (rev xs)))"
    by (simp only: sorted_wrt_rev)
  with True show ?thesis by (simp add: py_sort_def)
next
  case False
  have "sorted (map f (sort_key f xs))" by simp
  then have "sorted_wrt (\<lambda>a b. f a \<le> f b) (sort_key f xs)"
    by (simp only: sorted_map)
  with False show ?thesis by (simp add: py_sort_def)
qed

lemma the_eq_iff: "a \<noteq> None \<Longrightarrow> b \<noteq> None \<Longrightarrow> (the a = the b) = (b = a)"
  by auto

lemma same_key_fun:
  "same_key ById u = (\<lambda>v. id_u u = id_u v)"
  "same_key ByName u = (\<lambda>v. the (name u) = the (name v))"
  "same_key ByAge u = (\<lambda>v. the (age u) = the (age v))"
  by (simp_all add: same_key_def fun_eq_iff)

lemma sort_items_well_formed:
  assumes "well_formed xs"
  shows "\<exists>ys. sort_items sb (ord = Desc) xs = Inr ys \<and> mset ys = mset xs
           \<and> in_order sb ord ys \<and> keeps_ties sb xs ys"
proof -
  from assms have nm: "\<forall>u \<in> set xs. name u \<noteq> None" and ag: "\<forall>u \<in> set xs. age u \<noteq> None"
    by (simp_all add: well_formed_def)
  define r where "r = (ord = Desc)"
  show ?thesis
  proof (cases sb)
    case ById
    let ?ys = "py_sort id_u r xs"
    have "sort_items sb r xs = Inr ?ys" using ById by (simp add: sort_items_def)
    moreover have "mset ?ys = mset xs" by (rule mset_py_sort)
    moreover have "in_order sb ord ?ys"
      using py_sort_sorted [of r id_u xs] ById
      by (cases ord) (simp_all add: in_order_def key_le_def r_def)
    moreover have "keeps_ties sb xs ?ys"
    proof -
      have "filter (\<lambda>v. id_u u = id_u v) ?ys = filter (\<lambda>v. id_u u = id_u v) xs"
        for u :: user
        by (rule py_sort_stable_sym)
      with ById show ?thesis by (simp add: keeps_ties_def same_key_fun)
    qed
    ultimately show ?thesis unfolding r_def by blast
  next
    case ByName
    let ?ys = "py_sort name r xs"
    have set: "set ?ys = set xs" using mset_py_sort [of name r xs] by (metis set_mset_mset)
    have "sort_items sb r xs = Inr ?ys" using ByName nm by (auto simp: sort_items_def)
    moreover have "mset ?ys = mset xs" by (rule mset_py_sort)
    moreover have "in_order sb ord ?ys"
    proof -
      have le: "name a \<le> name b \<longleftrightarrow> the (name a) \<le> the (name b)"
        if "a \<in> set ?ys" "b \<in> set ?ys" for a b
      proof -
        from that set nm have "name a \<noteq> None" "name b \<noteq> None" by simp_all
        then obtain x y where "name a = Some x" "name b = Some y" by blast
        then show ?thesis by simp
      qed
      have "sorted_wrt (\<lambda>a b. if r then the (name b) \<le> the (name a)
          else the (name a) \<le> the (name b)) ?ys"
        using py_sort_sorted [of r name xs]
        by (rule sorted_wrt_mono_rel [rotated]) (auto simp: le)
      with ByName show ?thesis
        by (cases ord) (simp_all add: in_order_def key_le_def r_def)
    qed
    moreover have "keeps_ties sb xs ?ys"
    proof -
      have "filter (\<lambda>v. the (name u) = the (name v)) ?ys
          = filter (\<lambda>v. the (name u) = the (name v)) xs" if u: "u \<in> set xs" for u
      proof -
        have "filter (\<lambda>v. the (name u) = the (name v)) ?ys = filter (\<lambda>v. name v = name u) ?ys"
          using nm set u by (intro filter_cong refl the_eq_iff) simp_all
        also have "\<dots> = filter (\<lambda>v. name v = name u) xs" by (rule py_sort_stable)
        also have "\<dots> = filter (\<lambda>v. the (name u) = the (name v)) xs"
          using nm u by (intro filter_cong refl the_eq_iff [symmetric]) simp_all
        finally show ?thesis .
      qed
      with ByName show ?thesis by (simp add: keeps_ties_def same_key_fun)
    qed
    ultimately show ?thesis unfolding r_def by blast
  next
    case ByAge
    let ?ys = "py_sort age r xs"
    have set: "set ?ys = set xs" using mset_py_sort [of age r xs] by (metis set_mset_mset)
    have "sort_items sb r xs = Inr ?ys" using ByAge ag by (auto simp: sort_items_def)
    moreover have "mset ?ys = mset xs" by (rule mset_py_sort)
    moreover have "in_order sb ord ?ys"
    proof -
      have le: "age a \<le> age b \<longleftrightarrow> the (age a) \<le> the (age b)"
        if "a \<in> set ?ys" "b \<in> set ?ys" for a b
      proof -
        from that set ag have "age a \<noteq> None" "age b \<noteq> None" by simp_all
        then obtain x y where "age a = Some x" "age b = Some y" by blast
        then show ?thesis by simp
      qed
      have "sorted_wrt (\<lambda>a b. if r then the (age b) \<le> the (age a)
          else the (age a) \<le> the (age b)) ?ys"
        using py_sort_sorted [of r age xs]
        by (rule sorted_wrt_mono_rel [rotated]) (auto simp: le)
      with ByAge show ?thesis
        by (cases ord) (simp_all add: in_order_def key_le_def r_def)
    qed
    moreover have "keeps_ties sb xs ?ys"
    proof -
      have "filter (\<lambda>v. the (age u) = the (age v)) ?ys
          = filter (\<lambda>v. the (age u) = the (age v)) xs" if u: "u \<in> set xs" for u
      proof -
        have "filter (\<lambda>v. the (age u) = the (age v)) ?ys = filter (\<lambda>v. age v = age u) ?ys"
          using ag set u by (intro filter_cong refl the_eq_iff) simp_all
        also have "\<dots> = filter (\<lambda>v. age v = age u) xs" by (rule py_sort_stable)
        also have "\<dots> = filter (\<lambda>v. the (age u) = the (age v)) xs"
          using ag u by (intro filter_cong refl the_eq_iff [symmetric]) simp_all
        finally show ?thesis .
      qed
      with ByAge show ?thesis by (simp add: keeps_ties_def same_key_fun)
    qed
    ultimately show ?thesis unfolding r_def by blast
  qed
qed

lemma well_formed_filter: "well_formed xs \<Longrightarrow> well_formed (filter P xs)"
  by (simp add: well_formed_def)

lemma matches_q_well_formed:
  "name u \<noteq> None \<Longrightarrow> email u \<noteq> None \<Longrightarrow>
     matches_q lower ql u = Inr (str_in ql (lower (the (name u))) \<or> str_in ql (lower (the (email u))))"
  by (auto simp: matches_q_def)

lemma q_stage:
  assumes "well_formed xs" and "q \<noteq> Some []"
  shows "(case q of
            None \<Rightarrow> Inr xs
          | Some qs \<Rightarrow> if qs = [] then Inr xs else filter_e (matches_q lower (lower qs)) xs)
       = Inr (filter (\<lambda>u. case q of
                             None \<Rightarrow> True
                           | Some qs \<Rightarrow> str_in (lower qs) (lower (the (name u)))
                                        \<or> str_in (lower qs) (lower (the (email u)))) xs)"
proof (cases q)
  case None
  then show ?thesis by simp
next
  case (Some qs)
  show ?thesis
  proof (cases "qs = []")
    case True
    with Some assms(2) show ?thesis by simp
  next
    case False
    have "filter_e (matches_q lower (lower qs)) xs
        = Inr (filter (\<lambda>u. str_in (lower qs) (lower (the (name u)))
                          \<or> str_in (lower qs) (lower (the (email u)))) xs)"
      using assms(1) by (intro filter_e_total) (simp add: well_formed_def matches_q_well_formed)
    with Some False show ?thesis by simp
  qed
qed

lemma min_stage:
  assumes "well_formed xs"
  shows "(case mn of None \<Rightarrow> Inr xs | Some m \<Rightarrow> filter_e (age_ge m) xs)
       = Inr (filter (\<lambda>u. case mn of None \<Rightarrow> True | Some m \<Rightarrow> m \<le> the (age u)) xs)"
proof (cases mn)
  case None
  then show ?thesis by simp
next
  case (Some m)
  have "filter_e (age_ge m) xs = Inr (filter (\<lambda>u. m \<le> the (age u)) xs)"
    using assms by (intro filter_e_total) (auto simp: well_formed_def age_ge_def)
  with Some show ?thesis by simp
qed

lemma max_stage:
  assumes "well_formed xs"
  shows "(case mx of None \<Rightarrow> Inr xs | Some m \<Rightarrow> filter_e (age_le m) xs)
       = Inr (filter (\<lambda>u. case mx of None \<Rightarrow> True | Some m \<Rightarrow> the (age u) \<le> m) xs)"
proof (cases mx)
  case None
  then show ?thesis by simp
next
  case (Some m)
  have "filter_e (age_le m) xs = Inr (filter (\<lambda>u. the (age u) \<le> m) xs)"
    using assms by (intro filter_e_total) (auto simp: well_formed_def age_le_def)
  with Some show ?thesis by simp
qed

lemma list_users_sorted:
  assumes "well_formed (USERS s)" and "q \<noteq> Some []"
    and "sort_items sb (ord = Desc) (filter (spec_match lower q mn mx) (USERS s)) = Inr ys"
  shows "list_users lower pg lim q mn mx sb ord s
       = (Inr \<lparr>total = int (length ys), page = pg, limit = lim,
               items = py_slice ys ((pg - 1) * lim) ((pg - 1) * lim + lim)\<rparr>, s)"
proof -
  let ?Q1 = "\<lambda>u. case q of
                    None \<Rightarrow> True
                  | Some qs \<Rightarrow> str_in (lower qs) (lower (the (name u)))
                               \<or> str_in (lower qs) (lower (the (email u)))"
  let ?Q2 = "\<lambda>u. case mn of None \<Rightarrow> True | Some m \<Rightarrow> m \<le> the (age u)"
  let ?Q3 = "\<lambda>u. case mx of None \<Rightarrow> True | Some m \<Rightarrow> the (age u) \<le> m"
  let ?F1 = "filter ?Q1 (USERS s)"
  let ?F2 = "filter ?Q2 ?F1"
  let ?F3 = "filter ?Q3 ?F2"
  from assms(1) have w1: "well_formed ?F1" by (rule well_formed_filter)
  then have w2: "well_formed ?F2" by (rule well_formed_filter)
  have "?F3 = filter (\<lambda>u. ?Q1 u \<and> ?Q2 u \<and> ?Q3 u) (USERS s)"
    by (simp add: conj_commute conj_left_commute)
  also have "\<dots> = filter (spec_match lower q mn mx) (USERS s)"
    by (rule filter_cong) (simp_all add: spec_match_def)
  finally have F3: "?F3 = filter (spec_match lower q mn mx) (USERS s)" .
  show ?thesis
    unfolding list_users_def Let_def q_stage [OF assms(1,2)] sum.case min_stage [OF w1]
      max_stage [OF w2] F3 assms(3)
    by simp
qed

text \<open>
  On stored users with name, email and age present, with \<open>page \<ge> 1\<close>, \<open>limit \<ge> 1\<close> and a
  query that is not empty, List is the pipeline of the specification: it answers with
  the total number of users that match the filters, the page and the limit it was given,
  and the slice \<open>[(page - 1) * limit, (page - 1) * limit + limit)\<close> of a list that is a
  rearrangement of the matching users, in the chosen order of the chosen key, with ties
  in store order. When the page lies beyond the last one the slice is empty and the
  total is the same.
\<close>

lemma list_users_pipeline:
  assumes "well_formed (USERS s)" and "1 \<le> pg" and "1 \<le> lim" and "q \<noteq> Some []"
  shows "\<exists>sorted_items.
           list_users lower pg lim q min_age max_age sb ord s
             = (Inr \<lparr>total = int (length (filter (spec_match lower q min_age max_age) (USERS s))),
                     page = pg, limit = lim,
                     items = take (nat lim) (drop (nat ((pg - 1) * lim)) sorted_items)\<rparr>, s)
         \<and> mset sorted_items = mset (filter (spec_match lower q min_age max_age) (USERS s))
         \<and> in_order sb ord sorted_items
         \<and> keeps_ties sb (filter (spec_match lower q min_age max_age) (USERS s)) sorted_items
         \<and> (int (length (filter (spec_match lower q min_age max_age) (USERS s))) \<le> (pg - 1) * lim
              \<longrightarrow> take (nat lim) (drop (nat ((pg - 1) * lim)) sorted_items) = [])"
proof -
  let ?F = "filter (spec_match lower q min_age max_age) (USERS s)"
  from assms(1) have "well_formed ?F" by (rule well_formed_filter)
  from sort_items_well_formed [OF this, of sb ord]
  obtain ys where ys: "sort_items sb (ord = Desc) ?F = Inr ys" "mset ys = mset ?F"
    "in_order sb ord ys" "keeps_ties sb ?F ys" by blast
  from ys(2) have len: "length ys = length ?F" by (metis size_mset)
  have "list_users lower pg lim q min_age max_age sb ord s
      = (Inr \<lparr>total = int (length ?F), page = pg, limit = lim,
              items = take (nat lim) (drop (nat ((pg - 1) * lim)) ys)\<rparr>, s)"
    by (simp add: list_users_sorted [OF assms(1,4) ys(1)] slice_page [OF assms(2,3)] len)
  moreover have "int (length ?F) \<le> (pg - 1) * lim \<longrightarrow>
      take (nat lim) (drop (nat ((pg - 1) * lim)) ys) = []"
    using len by auto
  ultimately show ?thesis using ys(2,3,4) by blast
qed

lemma list_users_pipeline_example:
  "map id_u (filter (spec_match lower_latin1 (Some (str_of ''aNn'')) (Some 20) None) (USERS store4))
     = [1, 3]
   \<and> list_users lower_latin1 2 2 (Some (str_of ''aNn'')) (Some 20) None ByAge Desc store4
       = (Inr \<lparr>total = 2, page = 2, limit = 2, items = []\<rparr>, store4)
   \<and> list_users lower_latin1 1 2 (Some (str_of ''aNn'')) (Some 20) None ByAge Desc store4
       = (Inr \<lparr>total = 2, page = 1, limit = 2,
               items = [USERS store4 ! 0, USERS store4 ! 2]\<rparr>, store4)"
  by code_simp

lemma reachable_run: "reachable lower s \<Longrightarrow> reachable lower (run lower rs s)"
  by (induction rs arbitrary: s) (simp_all add: reachable_step)

lemma reachable_nameless: "reachable lower_latin1 (run lower_latin1 nameless_requests init_store)"
  by (intro reachable_run reachable_init)

text \<open>
  Claim C2, at the failing input. Ann and Carl are created and the name of user 1 is
  patched to \<open>null\<close>, which the change-set schema admits. On the store so reached List
  is not the pipeline: with the query \<open>ann\<close> the filter calls \<open>.lower()\<close> on \<open>None\<close> and
  the request ends with \<open>AttributeError\<close>; without a query, sorting by name compares
  \<open>None\<close> with a string and the request ends with \<open>TypeError\<close>.
\<close>

theorem list_users_null_name_raises:
  "map name (USERS (run lower_latin1 nameless_requests init_store)) = [None, Some (str_of ''Carl'')]
   \<and> list_users lower_latin1 1 10 (Some (str_of ''ann'')) None None ById Asc
         (run lower_latin1 nameless_requests init_store)
       = (Inl AttributeError, run lower_latin1 nameless_requests init_store)
   \<and> list_users lower_latin1 1 10 None None None ByName Asc
         (run lower_latin1 nameless_requests init_store)
       = (Inl TypeError, run lower_latin1 nameless_requests init_store)"
  by code_simp

end
